theory Spec2Isabelle
  imports Main "HOL-Library.AList" "HOL-Library.Extended_Nat"
begin

section \<open>The socket room manager and the connection gate of \<open>server/socket\<close>\<close>

text \<open>
  The development embeds \<^verbatim>\<open>src/server/socket/rooms.ts\<close>: the room registry
  (\<^verbatim>\<open>getRoomId\<close>, \<^verbatim>\<open>parseRoomId\<close>, \<^verbatim>\<open>joinRoom\<close>, \<^verbatim>\<open>leaveRoom\<close>,
  \<^verbatim>\<open>leaveAllRooms\<close>, \<^verbatim>\<open>cleanupEmptyRooms\<close>, \<^verbatim>\<open>getRoomStats\<close>) and the
  authentication middleware with its per-address rate limiter (\<^verbatim>\<open>checkRateLimit\<close>,
  \<^verbatim>\<open>cleanupRateLimits\<close>, \<^verbatim>\<open>socketAuthMiddleware\<close>).

  Modelling decisions, which hold for the whole file:
  \<^item> TypeScript types are erased at run time, so a \<^verbatim>\<open>RoomType\<close> is a \<open>string\<close>
    and the union type is the predicate \<open>isRoomType\<close>;
  \<^item> a JavaScript \<^verbatim>\<open>Set\<close> is a list in insertion order (\<open>set_add\<close> appends only a
    new element), a JavaScript \<^verbatim>\<open>Map\<close> an association list in insertion order
    (\<open>AList.update\<close> replaces in place or appends, \<open>AList.delete\<close> removes);
  \<^item> module-level state (\<^verbatim>\<open>rooms\<close>, \<^verbatim>\<open>connectionAttempts\<close>) and
    \<^verbatim>\<open>socket.data\<close> are passed in and returned; \<open>joinRoom\<close>, \<open>leaveRoom\<close> and
    \<open>leaveAllRooms\<close> are whole calls, run with no other call in between, and the
    \<^verbatim>\<open>await\<close> inside \<^verbatim>\<open>joinRoom\<close> is modelled apart, by the two halves of the call
    that \<open>join_step\<close> interleaves;
  \<^item> the clock (\<^verbatim>\<open>Date.now()\<close>, \<^verbatim>\<open>new Date()\<close>) is a parameter, in milliseconds;
  \<^item> logging and the \<^verbatim>\<open>error\<close> event sent to the client do not touch the state and
    are left out.
\<close>

subsection \<open>JavaScript strings: \<^verbatim>\<open>split\<close> and \<^verbatim>\<open>join\<close>\<close>

text \<open>\<^verbatim>\<open>s.split(sep)\<close> for a one-character separator: never the empty array,
  \<^verbatim>\<open>"".split(":")\<close> is \<^verbatim>\<open>[""]\<close>.\<close>

fun js_split :: "char \<Rightarrow> string \<Rightarrow> string list" where
  "js_split sep [] = [[]]"
| "js_split sep (c # cs) =
     (if c = sep then [] # js_split sep cs
      else (case js_split sep cs of [] \<Rightarrow> [[c]] | w # ws \<Rightarrow> (c # w) # ws))"

text \<open>\<^verbatim>\<open>ws.join(sep)\<close>; the empty array joins to the empty string.\<close>

fun js_join :: "string \<Rightarrow> string list \<Rightarrow> string" where
  "js_join sep [] = []"
| "js_join sep [w] = w"
| "js_join sep (w # v # ws) = w @ sep @ js_join sep (v # ws)"

subsection \<open>Room keys\<close>

text \<open>\<^verbatim>\<open>export type RoomType = "battle" | "game" | "spot" | "global"\<close>\<close>

definition isRoomType :: "string \<Rightarrow> bool" where
  "isRoomType t \<longleftrightarrow> t = ''battle'' \<or> t = ''game'' \<or> t = ''spot'' \<or> t = ''global''"

text \<open>\<^verbatim>\<open>return `${type}:${id}`\<close>\<close>

definition getRoomId :: "string \<Rightarrow> string \<Rightarrow> string" where
  "getRoomId ty i = ty @ '':'' @ i"

text \<open>
  \<^verbatim>\<open>const [type, ...rest] = roomId.split(":"); const id = rest.join(":");
  if (!type || !id) return null; return { type: type as RoomType, id };\<close>
  The cast is unchecked, so the result carries the raw type segment. \<open>None\<close> is
  \<^verbatim>\<open>null\<close>.
\<close>

definition parseRoomId :: "string \<Rightarrow> (string \<times> string) option" where
  "parseRoomId roomId =
     (case js_split CHR '':'' roomId of
        [] \<Rightarrow> None
      | ty # rest \<Rightarrow>
          (let i = js_join '':'' rest
           in if ty = [] \<or> i = [] then None else Some (ty, i)))"

subsection \<open>JavaScript sets\<close>

text \<open>\<^verbatim>\<open>s.add(x)\<close>, \<^verbatim>\<open>s.delete(x)\<close>; \<^verbatim>\<open>s.size\<close> is \<open>length\<close>.\<close>

definition set_add :: "'a \<Rightarrow> 'a list \<Rightarrow> 'a list" where
  "set_add x xs = (if x \<in> set xs then xs else xs @ [x])"

definition set_delete :: "'a \<Rightarrow> 'a list \<Rightarrow> 'a list" where
  "set_delete x xs = removeAll x xs"

subsection \<open>The room registry\<close>

text \<open>\<^verbatim>\<open>RoomInfo\<close>: the members are subject ids (\<^verbatim>\<open>data.odv\<close>), not sockets.\<close>

record RoomInfo =
  type :: string
  id :: string
  members :: "string list"
  createdAt :: int

text \<open>\<^verbatim>\<open>const rooms = new Map<string, RoomInfo>()\<close>\<close>

type_synonym registry = "(string \<times> RoomInfo) list"

text \<open>
  \<^verbatim>\<open>ROOM_LIMITS\<close>: \<open>\<infinity>\<close> is \<^verbatim>\<open>Infinity\<close>; \<open>None\<close> is what the lookup gives for a
  string outside \<^verbatim>\<open>RoomType\<close> (\<^verbatim>\<open>undefined\<close>, or an inherited property, none of
  them a number).
\<close>

definition ROOM_LIMITS :: "string \<Rightarrow> enat option" where
  "ROOM_LIMITS ty =
     (if ty = ''battle'' then Some 2
      else if ty = ''game'' then Some 8
      else if ty = ''spot'' then Some 100
      else if ty = ''global'' then Some \<infinity>
      else None)"

text \<open>\<^verbatim>\<open>n >= limit\<close> of JavaScript: false when the limit is no number.\<close>

definition size_ge :: "nat \<Rightarrow> enat option \<Rightarrow> bool" where
  "size_ge n limit = (case limit of None \<Rightarrow> False | Some l \<Rightarrow> l \<le> enat n)"

definition getOrCreateRoom :: "int \<Rightarrow> string \<Rightarrow> string \<Rightarrow> registry \<Rightarrow> RoomInfo \<times> registry" where
  "getOrCreateRoom now ty i rs =
     (let roomId = getRoomId ty i
      in case map_of rs roomId of
           Some room \<Rightarrow> (room, rs)
         | None \<Rightarrow>
             (let room = \<lparr>type = ty, id = i, members = [], createdAt = now\<rparr>
              in (room, AList.update roomId room rs)))"

text \<open>
  \<^verbatim>\<open>for (const [roomId, room] of rooms.entries())
    if (room.members.size === 0) rooms.delete(roomId);\<close>
  Deleting the entry under visit does not disturb the iteration of a \<^verbatim>\<open>Map\<close>.
\<close>

definition cleanupEmptyRooms :: "registry \<Rightarrow> registry" where
  "cleanupEmptyRooms rs =
     fold (\<lambda>(roomId, room) acc.
             if length (members room) = 0 then AList.delete roomId acc else acc) rs rs"

text \<open>\<^verbatim>\<open>SocketData\<close>, the session kept in \<^verbatim>\<open>socket.data\<close>.\<close>

record SocketData =
  userId :: string
  odv :: string
  firebaseUid :: string
  roles :: "string list"
  connectedAt :: int
  rooms :: "string list"

text \<open>
  \<^verbatim>\<open>joinRoom(socket, type, id)\<close>, as a call that no other call overlaps: the result is
  the returned boolean, the session and the registry. The room is looked up or created
  before the capacity check, and the check reads the limit of the \<^emph>\<open>argument\<close> type.
\<close>

definition joinRoom ::
  "int \<Rightarrow> SocketData \<Rightarrow> string \<Rightarrow> string \<Rightarrow> registry \<Rightarrow> bool \<times> SocketData \<times> registry" where
  "joinRoom now data ty i rs =
     (let roomId = getRoomId ty i;
          (room, rs1) = getOrCreateRoom now ty i rs
      in if size_ge (length (members room)) (ROOM_LIMITS ty) then (False, data, rs1)
         else (True,
               data\<lparr>rooms := set_add roomId (rooms data)\<rparr>,
               AList.update roomId (room\<lparr>members := set_add (odv data) (members room)\<rparr>) rs1))"

text \<open>\<^verbatim>\<open>leaveRoom(socket, type, id)\<close>: a missing room is skipped, the key leaves the
  session in any case.\<close>

definition leaveRoom ::
  "SocketData \<Rightarrow> string \<Rightarrow> string \<Rightarrow> registry \<Rightarrow> SocketData \<times> registry" where
  "leaveRoom data ty i rs =
     (let roomId = getRoomId ty i;
          rs1 = (case map_of rs roomId of
                   Some room \<Rightarrow>
                     AList.update roomId
                       (room\<lparr>members := set_delete (odv data) (members room)\<rparr>) rs
                 | None \<Rightarrow> rs)
      in (data\<lparr>rooms := set_delete roomId (rooms data)\<rparr>, rs1))"

text \<open>
  \<^verbatim>\<open>for (const roomId of data.rooms) { const parsed = parseRoomId(roomId);
    if (parsed) await leaveRoom(socket, parsed.type, parsed.id); }\<close>
  The loop runs over the keys the set held at the start; the iterator of a
  \<^verbatim>\<open>Set\<close> is live, so a key deleted before it is reached is not visited.
\<close>

fun leaveAllRooms_loop :: "string list \<Rightarrow> SocketData \<Rightarrow> registry \<Rightarrow> SocketData \<times> registry" where
  "leaveAllRooms_loop [] data rs = (data, rs)"
| "leaveAllRooms_loop (roomId # ks) data rs =
     (if roomId \<notin> set (rooms data) then leaveAllRooms_loop ks data rs
      else case parseRoomId roomId of
             None \<Rightarrow> leaveAllRooms_loop ks data rs
           | Some (ty, i) \<Rightarrow>
               (case leaveRoom data ty i rs of
                  (data1, rs1) \<Rightarrow> leaveAllRooms_loop ks data1 rs1))"

definition leaveAllRooms :: "SocketData \<Rightarrow> registry \<Rightarrow> SocketData \<times> registry" where
  "leaveAllRooms data rs = leaveAllRooms_loop (rooms data) data rs"

text \<open>\<^verbatim>\<open>getRoomStats\<close>: \<^verbatim>\<open>byType\<close> is the record of the four counters;
  \<^verbatim>\<open>byType[room.type]++\<close> on a string outside \<^verbatim>\<open>RoomType\<close> leaves the four
  untouched.\<close>

record ByType =
  battle :: nat
  game :: nat
  spot :: nat
  global :: nat

record RoomStats =
  totalRooms :: nat
  totalMembers :: nat
  byType :: ByType

definition increment :: "string \<Rightarrow> ByType \<Rightarrow> ByType" where
  "increment ty b =
     (if ty = ''battle'' then b\<lparr>battle := battle b + 1\<rparr>
      else if ty = ''game'' then b\<lparr>game := game b + 1\<rparr>
      else if ty = ''spot'' then b\<lparr>spot := spot b + 1\<rparr>
      else if ty = ''global'' then b\<lparr>global := global b + 1\<rparr>
      else b)"

definition getRoomStats :: "registry \<Rightarrow> RoomStats" where
  "getRoomStats rs =
     (let (bt, tm) =
            fold (\<lambda>(roomId, room) (bt, tm).
                    (increment (type room) bt, tm + length (members room)))
              rs (\<lparr>battle = 0, game = 0, spot = 0, global = 0\<rparr>, 0)
      in \<lparr>totalRooms = length rs, totalMembers = tm, byType = bt\<rparr>)"

subsection \<open>A gateway: the registry and the sessions of its sockets\<close>

text \<open>
  The operations a socket handler or the timer can run, on the shared registry and the
  session of the socket they are called with. \<open>Sweep\<close> is a tick of
  \<^verbatim>\<open>setInterval(cleanupEmptyRooms, 5 * 60 * 1000)\<close>.
\<close>

datatype operation =
    Join nat string string int
  | Leave nat string string
  | LeaveAll nat
  | Sweep

record gateway =
  registry_of :: registry
  session_of :: "nat \<Rightarrow> SocketData"

fun step :: "operation \<Rightarrow> gateway \<Rightarrow> gateway" where
  "step (Join sock ty i now) g =
     (case joinRoom now (session_of g sock) ty i (registry_of g) of
        (joined, data, rs) \<Rightarrow> \<lparr>registry_of = rs, session_of = (session_of g)(sock := data)\<rparr>)"
| "step (Leave sock ty i) g =
     (case leaveRoom (session_of g sock) ty i (registry_of g) of
        (data, rs) \<Rightarrow> \<lparr>registry_of = rs, session_of = (session_of g)(sock := data)\<rparr>)"
| "step (LeaveAll sock) g =
     (case leaveAllRooms (session_of g sock) (registry_of g) of
        (data, rs) \<Rightarrow> \<lparr>registry_of = rs, session_of = (session_of g)(sock := data)\<rparr>)"
| "step Sweep g = g\<lparr>registry_of := cleanupEmptyRooms (registry_of g)\<rparr>"

definition run :: "operation list \<Rightarrow> gateway \<Rightarrow> gateway" where
  "run ops g = fold step ops g"

text \<open>The operations of a typed caller: a join names one of the four room types.\<close>

fun typed :: "operation \<Rightarrow> bool" where
  "typed (Join sock ty i now) = isRoomType ty"
| "typed _ = True"

text \<open>A session as the middleware creates it, and the gateway at start-up.\<close>

definition fresh_session :: "string \<Rightarrow> SocketData" where
  "fresh_session u =
     \<lparr>userId = u, odv = u, firebaseUid = [], roles = [], connectedAt = 0, rooms = []\<rparr>"

definition start :: "(nat \<Rightarrow> string) \<Rightarrow> gateway" where
  "start subject = \<lparr>registry_of = [], session_of = (\<lambda>sock. fresh_session (subject sock))\<rparr>"

text \<open>Three subjects on the sockets 0, 1 and 2 (and beyond), for concrete runs.\<close>

definition three_subjects :: "nat \<Rightarrow> string" where
  "three_subjects sock = (if sock = 0 then ''A'' else if sock = 1 then ''B'' else ''C'')"

subsection \<open>Joins that overlap\<close>

text \<open>
  \<^verbatim>\<open>joinRoom\<close> suspends at \<^verbatim>\<open>await socket.join(roomId)\<close>, between the capacity check
  and \<^verbatim>\<open>room.members.add\<close>, and other calls run while it is suspended. The first half,
  up to the \<^verbatim>\<open>await\<close>: look up or create the room, check the capacity; the boolean
  says whether the call goes on to the \<^verbatim>\<open>await\<close> (otherwise it has returned false).
\<close>

definition joinRoom_before_await ::
  "int \<Rightarrow> string \<Rightarrow> string \<Rightarrow> registry \<Rightarrow> bool \<times> registry" where
  "joinRoom_before_await now ty i rs =
     (let (room, rs1) = getOrCreateRoom now ty i rs
      in (\<not> size_ge (length (members room)) (ROOM_LIMITS ty), rs1))"

text \<open>
  The second half, after the \<^verbatim>\<open>await\<close>: \<^verbatim>\<open>room.members.add(data.odv);
  data.rooms.add(roomId); return true\<close>, with no second look at the size. \<^verbatim>\<open>room\<close> is the
  object found before the \<^verbatim>\<open>await\<close>; it is the room under \<open>roomId\<close> as long as no
  sweep ran in between (nothing else unbinds a key), and if the key is unbound the
  object is no longer in the registry.
\<close>

definition joinRoom_after_await ::
  "SocketData \<Rightarrow> string \<Rightarrow> string \<Rightarrow> registry \<Rightarrow> SocketData \<times> registry" where
  "joinRoom_after_await data ty i rs =
     (let roomId = getRoomId ty i
      in (data\<lparr>rooms := set_add roomId (rooms data)\<rparr>,
          case map_of rs roomId of
            Some room \<Rightarrow>
              AList.update roomId (room\<lparr>members := set_add (odv data) (members room)\<rparr>) rs
          | None \<Rightarrow> rs))"

text \<open>
  Calls of \<^verbatim>\<open>joinRoom\<close> in flight together: \<open>Call\<close> runs a call of a socket up to
  its \<^verbatim>\<open>await\<close>, \<open>Resume\<close> runs the oldest suspended call of a socket to its end.
  \<open>returned\<close> lists the values the calls have returned.
\<close>

datatype join_event = Call nat string string int | Resume nat

record overlapping =
  gateway_of :: gateway
  suspended :: "(nat \<times> string \<times> string) list"
  returned :: "(nat \<times> bool) list"

fun join_step :: "join_event \<Rightarrow> overlapping \<Rightarrow> overlapping" where
  "join_step (Call sock ty i now) s =
     (case joinRoom_before_await now ty i (registry_of (gateway_of s)) of
        (proceed, rs1) \<Rightarrow>
          if proceed
          then s\<lparr>gateway_of := (gateway_of s)\<lparr>registry_of := rs1\<rparr>,
                 suspended := suspended s @ [(sock, ty, i)]\<rparr>
          else s\<lparr>gateway_of := (gateway_of s)\<lparr>registry_of := rs1\<rparr>,
                 returned := returned s @ [(sock, False)]\<rparr>)"
| "join_step (Resume sock) s =
     (case map_of (suspended s) sock of
        None \<Rightarrow> s
      | Some (ty, i) \<Rightarrow>
          (case joinRoom_after_await (session_of (gateway_of s) sock) ty i
                  (registry_of (gateway_of s)) of
             (data, rs1) \<Rightarrow>
               \<lparr>gateway_of = \<lparr>registry_of = rs1,
                                session_of = (session_of (gateway_of s))(sock := data)\<rparr>,
                suspended = AList.delete_aux sock (suspended s),
                returned = returned s @ [(sock, True)]\<rparr>))"

definition join_run :: "join_event list \<Rightarrow> gateway \<Rightarrow> overlapping" where
  "join_run evs g = fold join_step evs \<lparr>gateway_of = g, suspended = [], returned = []\<rparr>"

text \<open>A key that \<open>parseRoomId\<close> accepts. For a key built from a room type this is: the id
  is not empty.\<close>

definition parsable :: "string \<Rightarrow> bool" where
  "parsable k \<longleftrightarrow> parseRoomId k \<noteq> None"

text \<open>The room after \<^verbatim>\<open>room.members.delete(u)\<close>.\<close>

definition without :: "string \<Rightarrow> RoomInfo \<Rightarrow> RoomInfo" where
  "without u room = room\<lparr>members := set_delete u (members room)\<rparr>"

text \<open>One subject on every socket: a user with several connections.\<close>

definition same_subject :: "nat \<Rightarrow> string" where
  "same_subject sock = ''U''"

subsection \<open>Invariants of the registry\<close>

text \<open>The list model stands for a \<^verbatim>\<open>Map\<close> of rooms with \<^verbatim>\<open>Set\<close>s of members: no key
  and no member occurs twice.\<close>

definition wellformed :: "registry \<Rightarrow> bool" where
  "wellformed rs \<longleftrightarrow>
     distinct (map fst rs) \<and> (\<forall>(k, room) \<in> set rs. distinct (members room))"

text \<open>A room is within the limit that \<^verbatim>\<open>ROOM_LIMITS\<close> gives for its type.\<close>

definition within_limit :: "RoomInfo \<Rightarrow> bool" where
  "within_limit room \<longleftrightarrow>
     (case ROOM_LIMITS (type room) of
        None \<Rightarrow> True
      | Some l \<Rightarrow> enat (length (members room)) \<le> l)"

text \<open>Every room has a room type, sits under the key of its own type and id, and is
  within its limit.\<close>

definition registry_ok :: "registry \<Rightarrow> bool" where
  "registry_ok rs \<longleftrightarrow>
     (\<forall>(k, room) \<in> set rs.
        isRoomType (type room) \<and> k = getRoomId (type room) (id room) \<and> within_limit room)"

fun is_sweep :: "operation \<Rightarrow> bool" where
  "is_sweep Sweep = True"
| "is_sweep _ = False"

subsection \<open>The connection rate limiter\<close>

text \<open>\<^verbatim>\<open>const connectionAttempts = new Map<string, { count: number; resetAt: number }>()\<close>;
  times are milliseconds, counts and times stay far inside the exact integer range of a
  JavaScript number.\<close>

record RateEntry =
  count :: nat
  resetAt :: int

type_synonym attempts = "(string \<times> RateEntry) list"

definition MAX_CONNECTIONS_PER_MINUTE :: nat where
  "MAX_CONNECTIONS_PER_MINUTE = 10"

definition RATE_LIMIT_WINDOW_MS :: int where
  "RATE_LIMIT_WINDOW_MS = 60 * 1000"

text \<open>\<^verbatim>\<open>cleanupRateLimits\<close>, with \<open>now\<close> for \<^verbatim>\<open>Date.now()\<close>.\<close>

definition cleanupRateLimits :: "int \<Rightarrow> attempts \<Rightarrow> attempts" where
  "cleanupRateLimits now m =
     fold (\<lambda>(ip, entry) acc. if now > resetAt entry then AList.delete ip acc else acc) m m"

text \<open>\<^verbatim>\<open>checkRateLimit(ip)\<close>: the returned boolean and the map after the call.\<close>

definition checkRateLimit :: "int \<Rightarrow> string \<Rightarrow> attempts \<Rightarrow> bool \<times> attempts" where
  "checkRateLimit now ip m =
     (let fresh = (True, AList.update ip \<lparr>count = 1, resetAt = now + RATE_LIMIT_WINDOW_MS\<rparr> m)
      in case map_of m ip of
           None \<Rightarrow> fresh
         | Some existing \<Rightarrow>
             if now > resetAt existing then fresh
             else if count existing \<ge> MAX_CONNECTIONS_PER_MINUTE then (False, m)
             else (True, AList.update ip (existing\<lparr>count := count existing + 1\<rparr>) m))"

text \<open>The attempts of one address at the given times, in order.\<close>

fun admit_all :: "string \<Rightarrow> int list \<Rightarrow> attempts \<Rightarrow> bool list \<times> attempts" where
  "admit_all ip [] m = ([], m)"
| "admit_all ip (now # ts) m =
     (case checkRateLimit now ip m of
        (allowed, m1) \<Rightarrow>
          (case admit_all ip ts m1 of (rest, m2) \<Rightarrow> (allowed # rest, m2)))"

text \<open>Any traffic: attempts of any address at any time, and ticks of
  \<^verbatim>\<open>setInterval(cleanupRateLimits, RATE_LIMIT_WINDOW_MS)\<close>.\<close>

datatype limiter_event = Attempt string int | CleanupTick int

fun limiter_step :: "limiter_event \<Rightarrow> attempts \<Rightarrow> attempts" where
  "limiter_step (Attempt ip now) m = snd (checkRateLimit now ip m)"
| "limiter_step (CleanupTick now) m = cleanupRateLimits now m"

definition limiter_run :: "limiter_event list \<Rightarrow> attempts \<Rightarrow> attempts" where
  "limiter_run evs m = fold limiter_step evs m"

subsection \<open>The authentication middleware\<close>

text \<open>
  The two capabilities the middleware calls are parameters: \<^verbatim>\<open>verifyIdToken\<close> (\<open>None\<close>
  when it throws) and \<^verbatim>\<open>AuthService.findUserByFirebaseUid\<close>. Of the decoded token and
  of the user record only the fields the middleware reads are kept; \<open>admin\<close> and
  \<open>isActive\<close> are the truthiness of the fields, \<open>user_id\<close> is \<^verbatim>\<open>user.id\<close>.
\<close>

record DecodedIdToken =
  uid :: string
  admin :: bool

record User =
  user_id :: string
  isActive :: bool

datatype lookup = Throws | NoUser | Found User

text \<open>\<^verbatim>\<open>socket.handshake.auth?.token\<close>: missing, of another type, or a string.\<close>

datatype token_value = Absent | NotAString | Token string

text \<open>The message of the error passed to \<^verbatim>\<open>next\<close>.\<close>

datatype auth_error =
    rate_limit_exceeded
  | authentication_required
  | invalid_token
  | user_not_found
  | account_inactive
  | authentication_failed

text \<open>
  \<^verbatim>\<open>socketAuthMiddleware\<close>: \<open>Inl\<close> is \<^verbatim>\<open>next(new Error(...))\<close>, \<open>Inr\<close> the
  \<^verbatim>\<open>SocketData\<close> stored in \<^verbatim>\<open>socket.data\<close> before \<^verbatim>\<open>next()\<close>. \<open>now\<close> is the clock
  at the rate-limit check, \<open>later\<close> the \<^verbatim>\<open>new Date()\<close>.
\<close>

definition socketAuthMiddleware ::
  "(string \<Rightarrow> DecodedIdToken option) \<Rightarrow> (string \<Rightarrow> lookup) \<Rightarrow> int \<Rightarrow> int \<Rightarrow>
   string \<Rightarrow> token_value \<Rightarrow> attempts \<Rightarrow> (auth_error + SocketData) \<times> attempts" where
  "socketAuthMiddleware verifyIdToken findUserByFirebaseUid now later ip token m =
     (case checkRateLimit now ip m of
        (allowed, m1) \<Rightarrow>
          if \<not> allowed then (Inl rate_limit_exceeded, m1)
          else
            (case token of
               Absent \<Rightarrow> (Inl authentication_required, m1)
             | NotAString \<Rightarrow> (Inl authentication_required, m1)
             | Token t \<Rightarrow>
                 if t = [] then (Inl authentication_required, m1)
                 else
                   (case verifyIdToken t of
                      None \<Rightarrow> (Inl invalid_token, m1)
                    | Some decoded \<Rightarrow>
                        (case findUserByFirebaseUid (uid decoded) of
                           Throws \<Rightarrow> (Inl authentication_failed, m1)
                         | NoUser \<Rightarrow> (Inl user_not_found, m1)
                         | Found user \<Rightarrow>
                             if \<not> isActive user then (Inl account_inactive, m1)
                             else
                               (Inr \<lparr>userId = user_id user,
                                     odv = user_id user,
                                     firebaseUid = uid decoded,
                                     roles = (if admin decoded then [''admin''] else []),
                                     connectedAt = later,
                                     rooms = []\<rparr>, m1)))))"

text \<open>\<^verbatim>\<open>requireSocketAdmin\<close>, on a socket that carries a session.\<close>

definition requireSocketAdmin :: "SocketData \<Rightarrow> bool" where
  "requireSocketAdmin data \<longleftrightarrow> ''admin'' \<in> set (roles data)"

text \<open>No entry counts more attempts than the ceiling.\<close>

definition counts_ok :: "attempts \<Rightarrow> bool" where
  "counts_ok m \<longleftrightarrow> (\<forall>(ip, e) \<in> set m. count e \<le> MAX_CONNECTIONS_PER_MINUTE)"

text \<open>An identity provider that knows one token, of an administrator, and a user store
  that knows the one user, active or not.\<close>

definition demo_verify :: "string \<Rightarrow> DecodedIdToken option" where
  "demo_verify t = (if t = ''good'' then Some \<lparr>uid = ''fb-1'', admin = True\<rparr> else None)"

definition demo_lookup :: "bool \<Rightarrow> string \<Rightarrow> lookup" where
  "demo_lookup active u =
     (if u = ''fb-1'' then Found \<lparr>user_id = ''user-42'', isActive = active\<rparr> else NoUser)"

subsection \<open>Facts about room keys\<close>

lemma js_split_not_Nil: "js_split sep s \<noteq> []"
  by (induction s) (auto split: list.splits)

lemma js_split_no_sep: "sep \<notin> set t \<Longrightarrow> js_split sep t = [t]"
  by (induction t) auto

lemma js_split_first: "sep \<notin> set t \<Longrightarrow> js_split sep (t @ sep # r) = t # js_split sep r"
  by (induction t) auto

lemma js_join_Cons: "ws \<noteq> [] \<Longrightarrow> js_join sep (w # ws) = w @ sep @ js_join sep ws"
  by (cases ws) auto

lemma js_join_push: "js_join sep ((c # w) # ws) = c # js_join sep (w # ws)"
  by (cases ws) auto

lemma js_join_split: "js_join [sep] (js_split sep s) = s"
proof (induction s)
  case Nil
  show ?case by simp
next
  case (Cons c cs)
  show ?case
  proof (cases "c = sep")
    case True
    then show ?thesis
      using Cons.IH by (simp add: js_join_Cons js_split_not_Nil)
  next
    case False
    obtain w ws where sp: "js_split sep cs = w # ws"
      using js_split_not_Nil [of sep cs] by (cases "js_split sep cs") auto
    with False Cons.IH show ?thesis
      by (simp add: js_join_push)
  qed
qed

lemma parseRoomId_no_colon: "CHR '':'' \<notin> set k \<Longrightarrow> parseRoomId k = None"
  by (simp add: parseRoomId_def js_split_no_sep)

lemma parseRoomId_segments:
  "CHR '':'' \<notin> set t \<Longrightarrow>
   parseRoomId (t @ '':'' @ r) = (if t = [] \<or> r = [] then None else Some (t, r))"
  using js_split_first [of "CHR '':''" t r] js_join_split [of "CHR '':''" r]
  by (simp add: parseRoomId_def)

lemma parseRoomId_Some_iff:
  "parseRoomId k = Some (t, r) \<longleftrightarrow>
   t \<noteq> [] \<and> r \<noteq> [] \<and> CHR '':'' \<notin> set t \<and> k = t @ '':'' @ r"
proof (cases "CHR '':'' \<in> set k")
  case False
  then show ?thesis
    by (auto simp: parseRoomId_no_colon)
next
  case True
  then obtain t' r' where k: "k = t' @ CHR '':'' # r'" and t': "CHR '':'' \<notin> set t'"
    by (auto dest: split_list_first)
  have p: "parseRoomId k = (if t' = [] \<or> r' = [] then None else Some (t', r'))"
    using parseRoomId_segments [OF t', of r'] k by simp
  show ?thesis
  proof
    assume "parseRoomId k = Some (t, r)"
    with p k t' show "t \<noteq> [] \<and> r \<noteq> [] \<and> CHR '':'' \<notin> set t \<and> k = t @ '':'' @ r"
      by (auto split: if_splits)
  next
    assume "t \<noteq> [] \<and> r \<noteq> [] \<and> CHR '':'' \<notin> set t \<and> k = t @ '':'' @ r"
    then show "parseRoomId k = Some (t, r)"
      using parseRoomId_segments [of t r] by simp
  qed
qed

lemma isRoomType_no_colon: "isRoomType t \<Longrightarrow> CHR '':'' \<notin> set t \<and> t \<noteq> []"
  by (auto simp: isRoomType_def)

lemma parse_getRoomId:
  "isRoomType t \<Longrightarrow> parseRoomId (getRoomId t i) = (if i = [] then None else Some (t, i))"
  using parseRoomId_segments [of t i] isRoomType_no_colon [of t]
  by (simp add: getRoomId_def)

text \<open>
  Claim C5. For each of the four room types and every non-empty id, parsing the key
  built by \<open>getRoomId\<close> gives back exactly the type and the id (an id may itself contain
  colons). A key with no separator, with an empty type segment, or with nothing after
  the first separator parses to \<open>None\<close>; and whenever the parse succeeds both
  components are non-empty and rebuild the key, so no result is partially populated.
\<close>

theorem parseRoomId_roundtrip:
  "(isRoomType t \<and> i \<noteq> [] \<longrightarrow> parseRoomId (getRoomId t i) = Some (t, i)) \<and>
   (CHR '':'' \<notin> set k \<longrightarrow> parseRoomId k = None) \<and>
   parseRoomId ('':'' @ r) = None \<and>
   (CHR '':'' \<notin> set s \<longrightarrow> parseRoomId (s @ '':'') = None) \<and>
   (parseRoomId k = Some (t', i') \<longrightarrow> t' \<noteq> [] \<and> i' \<noteq> [] \<and> k = getRoomId t' i')"
proof -
  have a: "isRoomType t \<and> i \<noteq> [] \<longrightarrow> parseRoomId (getRoomId t i) = Some (t, i)"
    by (simp add: parse_getRoomId)
  have b: "CHR '':'' \<notin> set k \<longrightarrow> parseRoomId k = None"
    by (simp add: parseRoomId_no_colon)
  have c: "parseRoomId ('':'' @ r) = None"
    using parseRoomId_segments [of "[]" r] by simp
  have d: "CHR '':'' \<notin> set s \<longrightarrow> parseRoomId (s @ '':'') = None"
    using parseRoomId_segments [of s "[]"] by simp
  have e: "parseRoomId k = Some (t', i') \<longrightarrow> t' \<noteq> [] \<and> i' \<noteq> [] \<and> k = getRoomId t' i'"
    by (simp add: parseRoomId_Some_iff getRoomId_def)
  from a b c d e show ?thesis by blast
qed

theorem parseRoomId_roundtrip_witness:
  "isRoomType ''spot'' \<and> ''park:7'' \<noteq> [] \<and>
   parseRoomId (getRoomId ''spot'' ''park:7'') = Some (''spot'', ''park:7'') \<and>
   CHR '':'' \<notin> set ''battle'' \<and> parseRoomId ''battle'' = None \<and>
   parseRoomId '':abc'' = None \<and>
   parseRoomId ''game:'' = None \<and>
   parseRoomId ''spot:park:7'' = Some (''spot'', ''park:7'') \<and>
   ''spot:park:7'' = getRoomId ''spot'' ''park:7''"
  using parseRoomId_roundtrip [of "''spot''" "''park:7''" "''battle''" "''abc''" "''game''"
      "''spot''" "''park:7''"]
    parseRoomId_roundtrip [of "''spot''" "''park:7''" "''spot:park:7''" "''abc''" "''game''"
      "''spot''" "''park:7''"]
  by (simp add: isRoomType_def getRoomId_def)

text \<open>
  Claim C9. \<open>parseRoomId\<close> does not check the type segment against the room types:
  whenever the part before the first colon and the part after it are both non-empty the
  parse succeeds with exactly these two parts, also for a type segment that is no room
  type, as for \<^verbatim>\<open>"foo:bar"\<close>.
\<close>

theorem parseRoomId_unvalidated_type:
  "(t \<noteq> [] \<and> CHR '':'' \<notin> set t \<and> r \<noteq> [] \<longrightarrow> parseRoomId (t @ '':'' @ r) = Some (t, r)) \<and>
   \<not> isRoomType ''foo'' \<and> parseRoomId ''foo:bar'' = Some (''foo'', ''bar'')"
proof -
  have "parseRoomId (''foo'' @ '':'' @ ''bar'') = Some (''foo'', ''bar'')"
    by (subst parseRoomId_segments) simp_all
  then show ?thesis
    using parseRoomId_segments [of t r] by (simp add: isRoomType_def)
qed

theorem parseRoomId_unvalidated_type_witness:
  "''quux'' \<noteq> [] \<and> CHR '':'' \<notin> set ''quux'' \<and> ''a:b'' \<noteq> [] \<and> \<not> isRoomType ''quux'' \<and>
   parseRoomId ''quux:a:b'' = Some (''quux'', ''a:b'')"
  using parseRoomId_unvalidated_type [of "''quux''" "''a:b''"]
  by (simp add: isRoomType_def)

subsection \<open>Facts about the registry operations\<close>

lemma getRoomId_inject:
  "isRoomType t1 \<Longrightarrow> isRoomType t2 \<Longrightarrow> getRoomId t1 i1 = getRoomId t2 i2 \<Longrightarrow> t1 = t2 \<and> i1 = i2"
  by (auto simp: isRoomType_def getRoomId_def)

lemma set_update_subset: "set (AList.update k v al) \<subseteq> insert (k, v) (set al)"
  by (induction al) auto

lemma set_delete_subset: "set (AList.delete k al) \<subseteq> set al"
  by (auto simp: AList.delete_eq)

lemma length_set_add: "length (set_add x xs) \<le> Suc (length xs)"
  by (simp add: set_add_def)

lemma length_set_delete: "length (set_delete x xs) \<le> length xs"
  by (simp add: set_delete_def removeAll_filter_not_eq)

lemma distinct_set_add: "distinct xs \<Longrightarrow> distinct (set_add x xs)"
  by (simp add: set_add_def)

lemma distinct_set_delete: "distinct xs \<Longrightarrow> distinct (set_delete x xs)"
  by (simp add: set_delete_def distinct_removeAll)

lemma not_size_ge_Suc: "\<not> size_ge n (Some l) \<Longrightarrow> m \<le> Suc n \<Longrightarrow> enat m \<le> l"
  by (cases l) (auto simp: size_ge_def)

lemma enat_le_smaller: "enat a \<le> l \<Longrightarrow> b \<le> a \<Longrightarrow> enat b \<le> l"
  by (cases l) auto

text \<open>The loop of \<open>leaveAllRooms\<close> keeps whatever every call of \<open>leaveRoom\<close> keeps.\<close>

lemma leaveAllRooms_loop_keeps:
  assumes step: "\<And>data ty i rs. P rs \<Longrightarrow> P (snd (leaveRoom data ty i rs))"
  shows "P rs \<Longrightarrow> P (snd (leaveAllRooms_loop ks data rs))"
proof (induction ks arbitrary: data rs)
  case Nil
  then show ?case by simp
next
  case (Cons k ks)
  show ?case
  proof (cases "parseRoomId k")
    case None
    with Cons show ?thesis by simp
  next
    case (Some p)
    obtain ty i where p: "p = (ty, i)" by (cases p)
    obtain data1 rs1 where l: "leaveRoom data ty i rs = (data1, rs1)"
      by (cases "leaveRoom data ty i rs")
    have "P rs1"
      using step [OF Cons.prems, of data ty i] l by simp
    then have "P (snd (leaveAllRooms_loop ks data1 rs1))"
      by (rule Cons.IH)
    with Some p l Cons show ?thesis by simp
  qed
qed

subsection \<open>Rooms stay within their limits\<close>

lemma registry_ok_update:
  assumes "registry_ok rs" "isRoomType (type room)" "k = getRoomId (type room) (id room)"
    "within_limit room"
  shows "registry_ok (AList.update k room rs)"
  using assms set_update_subset [of k room rs]
  unfolding registry_ok_def by fastforce

lemma registry_ok_lookup:
  "registry_ok rs \<Longrightarrow> map_of rs k = Some room \<Longrightarrow>
   isRoomType (type room) \<and> k = getRoomId (type room) (id room) \<and> within_limit room"
  unfolding registry_ok_def by (auto dest!: map_of_SomeD)

lemma registry_ok_joinRoom:
  assumes ok: "registry_ok rs" and ty: "isRoomType ty"
  shows "registry_ok (snd (snd (joinRoom now data ty i rs)))"
proof (cases "map_of rs (getRoomId ty i)")
  case None
  let ?new = "\<lparr>type = ty, id = i, members = [], createdAt = now\<rparr>"
  let ?rs1 = "AList.update (getRoomId ty i) ?new rs"
  have new_ok: "within_limit ?new"
    by (simp add: within_limit_def zero_enat_def [symmetric] split: option.splits)
  have ok1: "registry_ok ?rs1"
    using ok ty new_ok by (intro registry_ok_update) simp_all
  have "within_limit (?new\<lparr>members := set_add (odv data) []\<rparr>)"
    if "\<not> size_ge 0 (ROOM_LIMITS ty)"
    using that not_size_ge_Suc [of 0 _ "length (set_add (odv data) [])"] length_set_add [of "odv data" "[]"]
    by (auto simp: within_limit_def split: option.splits)
  then show ?thesis
    using None ok ok1 ty
    by (auto simp: joinRoom_def getOrCreateRoom_def Let_def intro!: registry_ok_update)
next
  case (Some room)
  from registry_ok_lookup [OF ok Some]
  have r: "isRoomType (type room)" "getRoomId ty i = getRoomId (type room) (id room)"
    "within_limit room" by auto
  with ty have same: "type room = ty" "id room = i"
    using getRoomId_inject [of ty "type room" i "id room"] by auto
  have "within_limit (room\<lparr>members := set_add (odv data) (members room)\<rparr>)"
    if "\<not> size_ge (length (members room)) (ROOM_LIMITS ty)"
    using that same not_size_ge_Suc [OF _ length_set_add [of "odv data" "members room"]]
    by (auto simp: within_limit_def split: option.splits)
  then show ?thesis
    using Some ok ty same
    by (auto simp: joinRoom_def getOrCreateRoom_def Let_def intro!: registry_ok_update)
qed

lemma within_limit_fewer:
  "within_limit room \<Longrightarrow> length ms \<le> length (members room) \<Longrightarrow>
   within_limit (room\<lparr>members := ms\<rparr>)"
  by (auto simp: within_limit_def split: option.splits intro: enat_le_smaller)

lemma registry_ok_leaveRoom:
  assumes ok: "registry_ok rs"
  shows "registry_ok (snd (leaveRoom data ty i rs))"
proof (cases "map_of rs (getRoomId ty i)")
  case None
  with ok show ?thesis by (simp add: leaveRoom_def)
next
  case (Some room)
  from registry_ok_lookup [OF ok Some] length_set_delete [of "odv data" "members room"]
  have "registry_ok (AList.update (getRoomId ty i)
          (room\<lparr>members := set_delete (odv data) (members room)\<rparr>) rs)"
    by (intro registry_ok_update [OF ok]) (auto intro: within_limit_fewer)
  with Some show ?thesis by (simp add: leaveRoom_def Let_def)
qed

lemma registry_ok_leaveAllRooms:
  "registry_ok rs \<Longrightarrow> registry_ok (snd (leaveAllRooms data rs))"
  unfolding leaveAllRooms_def
  by (rule leaveAllRooms_loop_keeps [where P = registry_ok]) (rule registry_ok_leaveRoom)

lemma set_fold_delete_subset:
  "set (fold (\<lambda>(roomId, room) acc.
             if length (members room) = 0 then AList.delete roomId acc else acc) xs acc) \<subseteq> set acc"
proof (induction xs arbitrary: acc)
  case Nil
  show ?case by simp
next
  case (Cons x xs)
  obtain k room where x: "x = (k, room)" by (cases x)
  show ?case
    using Cons.IH [of "AList.delete k acc"] Cons.IH [of acc] set_delete_subset [of k acc]
    by (auto simp: x)
qed

lemma registry_ok_cleanupEmptyRooms: "registry_ok rs \<Longrightarrow> registry_ok (cleanupEmptyRooms rs)"
  using set_fold_delete_subset [of rs rs]
  unfolding registry_ok_def cleanupEmptyRooms_def by blast

lemma registry_ok_step:
  "registry_ok (registry_of g) \<Longrightarrow> typed op \<Longrightarrow> registry_ok (registry_of (step op g))"
proof (cases op)
  case (Join sock ty i now)
  assume "registry_ok (registry_of g)" "typed op"
  then show ?thesis
    using registry_ok_joinRoom [of "registry_of g" ty now "session_of g sock" i] Join
    by (auto split: prod.splits)
next
  case (Leave sock ty i)
  assume "registry_ok (registry_of g)"
  then show ?thesis
    using registry_ok_leaveRoom [of "registry_of g" "session_of g sock" ty i] Leave
    by (auto split: prod.splits)
next
  case (LeaveAll sock)
  assume "registry_ok (registry_of g)"
  then show ?thesis
    using registry_ok_leaveAllRooms [of "registry_of g" "session_of g sock"] LeaveAll
    by (auto split: prod.splits)
next
  case Sweep
  assume "registry_ok (registry_of g)"
  then show ?thesis
    using Sweep by (simp add: registry_ok_cleanupEmptyRooms)
qed

lemma registry_ok_run:
  "registry_ok (registry_of g) \<Longrightarrow> \<forall>op \<in> set ops. typed op \<Longrightarrow>
   registry_ok (registry_of (run ops g))"
  unfolding run_def
  by (induction ops arbitrary: g) (auto simp: registry_ok_step)

lemma registry_ok_start: "registry_ok (registry_of (start subject))"
  by (simp add: start_def registry_ok_def)

lemma within_limit_explicit:
  "within_limit room \<Longrightarrow>
     (type room = ''battle'' \<longrightarrow> length (members room) \<le> 2) \<and>
     (type room = ''game'' \<longrightarrow> length (members room) \<le> 8) \<and>
     (type room = ''spot'' \<longrightarrow> length (members room) \<le> 100)"
  by (auto simp: within_limit_def ROOM_LIMITS_def numeral_eq_enat)

subsection \<open>The registry stays a map of sets\<close>

lemma wellformed_update:
  "wellformed rs \<Longrightarrow> distinct (members room) \<Longrightarrow> wellformed (AList.update k room rs)"
  using set_update_subset [of k room rs]
  unfolding wellformed_def by (fastforce simp: distinct_update)

lemma wellformed_lookup:
  "wellformed rs \<Longrightarrow> map_of rs k = Some room \<Longrightarrow> distinct (members room)"
  unfolding wellformed_def by (auto dest!: map_of_SomeD)

lemma wellformed_joinRoom:
  assumes wf: "wellformed rs"
  shows "wellformed (snd (snd (joinRoom now data ty i rs)))"
proof (cases "map_of rs (getRoomId ty i)")
  case None
  then show ?thesis
    using wf by (auto simp: joinRoom_def getOrCreateRoom_def Let_def set_add_def
        intro!: wellformed_update)
next
  case (Some room)
  then show ?thesis
    using wf wellformed_lookup [OF wf Some]
    by (auto simp: joinRoom_def getOrCreateRoom_def Let_def
        intro!: wellformed_update distinct_set_add)
qed

lemma wellformed_leaveRoom:
  assumes wf: "wellformed rs"
  shows "wellformed (snd (leaveRoom data ty i rs))"
proof (cases "map_of rs (getRoomId ty i)")
  case None
  with wf show ?thesis by (simp add: leaveRoom_def)
next
  case (Some room)
  then show ?thesis
    using wf wellformed_lookup [OF wf Some]
    by (auto simp: leaveRoom_def Let_def intro!: wellformed_update distinct_set_delete)
qed

lemma wellformed_leaveAllRooms:
  "wellformed rs \<Longrightarrow> wellformed (snd (leaveAllRooms data rs))"
  unfolding leaveAllRooms_def
  by (rule leaveAllRooms_loop_keeps [where P = wellformed]) (rule wellformed_leaveRoom)

lemma cleanup_fold_filter:
  "fold (\<lambda>(roomId, room) acc.
           if members room = [] then AList.delete roomId acc else acc) xs acc =
   filter (\<lambda>(k, room). \<forall>room'. (k, room') \<in> set xs \<longrightarrow> members room' \<noteq> []) acc"
proof (induction xs arbitrary: acc)
  case Nil
  show ?case by simp
next
  case (Cons x xs)
  obtain k room where x: "x = (k, room)" by (cases x)
  show ?case
    by (auto simp: x Cons.IH AList.delete_eq intro!: filter_cong)
qed

lemma cleanupEmptyRooms_filter:
  assumes "distinct (map fst rs)"
  shows "cleanupEmptyRooms rs = filter (\<lambda>(k, room). members room \<noteq> []) rs"
proof -
  have "(\<forall>room'. (k, room') \<in> set rs \<longrightarrow> members room' \<noteq> []) \<longleftrightarrow> members room \<noteq> []"
    if "(k, room) \<in> set rs" for k room
    using that assms by (auto dest: eq_key_imp_eq_value)
  then have "filter (\<lambda>(k, room). \<forall>room'. (k, room') \<in> set rs \<longrightarrow> members room' \<noteq> []) rs =
      filter (\<lambda>(k, room). members room \<noteq> []) rs"
    by (intro filter_cong [OF refl]) auto
  then show ?thesis
    by (simp add: cleanupEmptyRooms_def cleanup_fold_filter)
qed

lemma map_of_filter_values:
  "distinct (map fst al) \<Longrightarrow>
   map_of (filter (\<lambda>(k, v). P v) al) k =
     (case map_of al k of None \<Rightarrow> None | Some v \<Rightarrow> if P v then Some v else None)"
proof (induction al)
  case Nil
  show ?case by simp
next
  case (Cons a al)
  obtain k' v' where a: "a = (k', v')" by (cases a)
  with Cons show ?case
    by (auto simp: map_of_eq_None_iff image_iff split: option.splits)
qed

lemma wellformed_cleanupEmptyRooms: "wellformed rs \<Longrightarrow> wellformed (cleanupEmptyRooms rs)"
  by (auto simp: wellformed_def cleanupEmptyRooms_filter distinct_map_filter)

lemma wellformed_step: "wellformed (registry_of g) \<Longrightarrow> wellformed (registry_of (step op g))"
proof (cases op)
  case (Join sock ty i now)
  assume "wellformed (registry_of g)"
  then show ?thesis
    using wellformed_joinRoom [of "registry_of g" now "session_of g sock" ty i] Join
    by (auto split: prod.splits)
next
  case (Leave sock ty i)
  assume "wellformed (registry_of g)"
  then show ?thesis
    using wellformed_leaveRoom [of "registry_of g" "session_of g sock" ty i] Leave
    by (auto split: prod.splits)
next
  case (LeaveAll sock)
  assume "wellformed (registry_of g)"
  then show ?thesis
    using wellformed_leaveAllRooms [of "registry_of g" "session_of g sock"] LeaveAll
    by (auto split: prod.splits)
next
  case Sweep
  assume "wellformed (registry_of g)"
  then show ?thesis
    using Sweep by (simp add: wellformed_cleanupEmptyRooms)
qed

lemma wellformed_run:
  "wellformed (registry_of g) \<Longrightarrow> wellformed (registry_of (run ops g))"
  unfolding run_def
  by (induction ops arbitrary: g) (auto simp: wellformed_step simp del: step.simps)

lemma wellformed_start: "wellformed (registry_of (start subject))"
  by (simp add: start_def wellformed_def)

text \<open>So every registry that the operations reach from start-up has distinct keys and
  duplicate-free member lists: the lists stand for a map and for sets.\<close>

lemma wellformed_reachable: "wellformed (registry_of (run ops (start subject)))"
  using wellformed_start by (rule wellformed_run)

subsection \<open>Which operations remove a room\<close>

lemma keys_update_present: "map_of al k = Some v \<Longrightarrow> map fst (AList.update k v' al) = map fst al"
  by (induction al) (auto split: if_splits)

lemma keys_leaveRoom: "map fst (snd (leaveRoom data ty i rs)) = map fst rs"
  by (auto simp: leaveRoom_def Let_def keys_update_present split: option.splits)

lemma keys_leaveAllRooms: "map fst (snd (leaveAllRooms data rs)) = map fst rs"
  unfolding leaveAllRooms_def
  by (rule leaveAllRooms_loop_keeps [where P = "\<lambda>r. map fst r = map fst rs"])
     (simp_all add: keys_leaveRoom)

lemma keys_joinRoom:
  "k \<in> fst ` set rs \<Longrightarrow> k \<in> fst ` set (snd (snd (joinRoom now data ty i rs)))"
  by (auto simp: joinRoom_def getOrCreateRoom_def Let_def dom_update split: option.splits)

lemma keys_kept_leaveRoom:
  "k \<in> fst ` set (snd (leaveRoom data ty i rs)) \<longleftrightarrow> k \<in> fst ` set rs"
  using keys_leaveRoom [of data ty i rs] by (metis list.set_map)

lemma keys_kept_leaveAllRooms:
  "k \<in> fst ` set (snd (leaveAllRooms data rs)) \<longleftrightarrow> k \<in> fst ` set rs"
  using keys_leaveAllRooms [of data rs] by (metis list.set_map)

lemma keys_step:
  assumes "\<not> is_sweep op" "k \<in> fst ` set (registry_of g)"
  shows "k \<in> fst ` set (registry_of (step op g))"
proof (cases op)
  case (Join sock ty i now)
  then show ?thesis
    using assms keys_joinRoom [of k "registry_of g" now "session_of g sock" ty i]
    by (auto split: prod.splits)
next
  case (Leave sock ty i)
  then show ?thesis
    using assms keys_kept_leaveRoom [of k "session_of g sock" ty i "registry_of g"]
    by (auto split: prod.splits)
next
  case (LeaveAll sock)
  then show ?thesis
    using assms keys_kept_leaveAllRooms [of k "session_of g sock" "registry_of g"]
    by (auto split: prod.splits)
next
  case Sweep
  with assms show ?thesis by simp
qed

lemma keys_run:
  "\<forall>op \<in> set ops. \<not> is_sweep op \<Longrightarrow> k \<in> fst ` set (registry_of g) \<Longrightarrow>
   k \<in> fst ` set (registry_of (run ops g))"
  unfolding run_def
  by (induction ops arbitrary: g) (auto simp: keys_step simp del: step.simps)

subsection \<open>Capacity\<close>

text \<open>
  Calls that run one after another. In every state that typed callers reach from the
  empty registry by whole joins, leaves, disconnects and sweeps, every room has one of
  the four types, a battle room has at most 2 members, a game room at most 8 and a spot
  room at most 100 (a global room has no bound, and a join to it always succeeds). A
  join to a room that already holds as many members as its type allows returns false
  and leaves the session and the whole registry as they were.
\<close>

theorem room_capacity_sequential:
  "((\<forall>op \<in> set ops. typed op) \<longrightarrow>
      (\<forall>(k, room) \<in> set (registry_of (run ops (start subject))).
         isRoomType (type room) \<and>
         (type room = ''battle'' \<longrightarrow> length (members room) \<le> 2) \<and>
         (type room = ''game'' \<longrightarrow> length (members room) \<le> 8) \<and>
         (type room = ''spot'' \<longrightarrow> length (members room) \<le> 100))) \<and>
   (map_of rs (getRoomId ty i) = Some room' \<and>
      (ty = ''battle'' \<and> 2 \<le> length (members room') \<or>
       ty = ''game'' \<and> 8 \<le> length (members room') \<or>
       ty = ''spot'' \<and> 100 \<le> length (members room')) \<longrightarrow>
      joinRoom now data ty i rs = (False, data, rs)) \<and>
   fst (joinRoom now data ''global'' i rs) = True"
proof -
  have inv: "\<forall>(k, room) \<in> set (registry_of (run ops (start subject))).
         isRoomType (type room) \<and>
         (type room = ''battle'' \<longrightarrow> length (members room) \<le> 2) \<and>
         (type room = ''game'' \<longrightarrow> length (members room) \<le> 8) \<and>
         (type room = ''spot'' \<longrightarrow> length (members room) \<le> 100)"
    if "\<forall>op \<in> set ops. typed op"
  proof -
    have "registry_ok (registry_of (run ops (start subject)))"
      using registry_ok_start that by (rule registry_ok_run)
    then show ?thesis
      unfolding registry_ok_def using within_limit_explicit by blast
  qed
  have full: "joinRoom now data ty i rs = (False, data, rs)"
    if "map_of rs (getRoomId ty i) = Some room'"
      "ty = ''battle'' \<and> 2 \<le> length (members room') \<or>
       ty = ''game'' \<and> 8 \<le> length (members room') \<or>
       ty = ''spot'' \<and> 100 \<le> length (members room')"
    using that
    by (auto simp: joinRoom_def getOrCreateRoom_def Let_def size_ge_def ROOM_LIMITS_def
        numeral_eq_enat)
  have unbounded: "fst (joinRoom now data ''global'' i rs) = True"
    by (simp add: joinRoom_def Let_def size_ge_def ROOM_LIMITS_def split: prod.splits)
  from inv full unbounded show ?thesis by blast
qed

theorem room_capacity_sequential_witness:
  "list_all typed [Join 0 ''battle'' ''x'' 10, Join 1 ''battle'' ''x'' 11,
                   Join 2 ''battle'' ''x'' 12, Leave 0 ''battle'' ''x'', Sweep,
                   Join 2 ''battle'' ''x'' 13, LeaveAll 1] \<and>
   registry_of (run
        [Join 0 ''battle'' ''x'' 10, Join 1 ''battle'' ''x'' 11,
         Join 2 ''battle'' ''x'' 12, Leave 0 ''battle'' ''x'', Sweep,
         Join 2 ''battle'' ''x'' 13, LeaveAll 1] (start three_subjects)) =
     [(''battle:x'', \<lparr>type = ''battle'', id = ''x'', members = [''C''], createdAt = 10\<rparr>)] \<and>
   isRoomType ''battle'' \<and> length [''C''] \<le> 2 \<and>
   map_of [(''battle:x'', \<lparr>type = ''battle'', id = ''x'', members = [''A'', ''B''], createdAt = 10\<rparr>)]
     (getRoomId ''battle'' ''x'') =
     Some \<lparr>type = ''battle'', id = ''x'', members = [''A'', ''B''], createdAt = 10\<rparr> \<and>
   2 \<le> length (members \<lparr>type = ''battle'', id = ''x'', members = [''A'', ''B''], createdAt = 10\<rparr>) \<and>
   joinRoom 12 (fresh_session ''C'') ''battle'' ''x''
     [(''battle:x'', \<lparr>type = ''battle'', id = ''x'', members = [''A'', ''B''], createdAt = 10\<rparr>)] =
     (False, fresh_session ''C'',
      [(''battle:x'', \<lparr>type = ''battle'', id = ''x'', members = [''A'', ''B''], createdAt = 10\<rparr>)])"
proof -
  let ?ops = "[Join 0 ''battle'' ''x'' 10, Join 1 ''battle'' ''x'' 11,
               Join 2 ''battle'' ''x'' 12, Leave 0 ''battle'' ''x'', Sweep,
               Join 2 ''battle'' ''x'' 13, LeaveAll 1]"
  let ?room = "\<lparr>type = ''battle'', id = ''x'', members = [''A'', ''B''], createdAt = 10\<rparr>"
  have h1: "\<forall>op \<in> set ?ops. typed op"
    by (simp add: isRoomType_def)
  have h2: "map_of [(''battle:x'', ?room)] (getRoomId ''battle'' ''x'') = Some ?room"
    by (simp add: getRoomId_def)
  have h3: "2 \<le> length (members ?room)"
    by simp
  have e: "registry_of (run ?ops (start three_subjects)) =
      [(''battle:x'', \<lparr>type = ''battle'', id = ''x'', members = [''C''], createdAt = 10\<rparr>)]"
    by code_simp
  show ?thesis
    using room_capacity_sequential [of ?ops three_subjects "[(''battle:x'', ?room)]"
        "''battle''" "''x''" ?room 12 "fresh_session ''C''"] h1 h2 h3 e
    by (simp add: isRoomType_def)
qed

text \<open>The two halves are the call: with nothing in between they do what \<open>joinRoom\<close>
  does, and a call resumed at once is a step of the gateway.\<close>

lemma joinRoom_halves:
  "joinRoom now data ty i rs =
     (case joinRoom_before_await now ty i rs of
        (proceed, rs1) \<Rightarrow>
          if proceed
          then (case joinRoom_after_await data ty i rs1 of (data1, rs2) \<Rightarrow> (True, data1, rs2))
          else (False, data, rs1))"
  by (auto simp: joinRoom_def joinRoom_before_await_def joinRoom_after_await_def
      getOrCreateRoom_def Let_def update_conv' split: option.splits prod.splits)

lemma join_step_call_resume:
  "suspended s = [] \<Longrightarrow>
   gateway_of (join_step (Resume sock) (join_step (Call sock ty i now) s)) =
     step (Join sock ty i now) (gateway_of s)"
  by (auto simp: joinRoom_halves split: prod.splits)

text \<open>
  Claim C1. The claim is that the member set of a room never grows beyond the capacity
  of its type, whatever joins, leaves and sweeps are made. The code keeps that for
  calls that run one after another, and loses it for joins that overlap: the size is
  checked before \<^verbatim>\<open>await socket.join(roomId)\<close> and the member is added after it, with no
  second check. Three sockets call \<^verbatim>\<open>joinRoom\<close> for the same battle room, not yet there,
  and each call reaches its \<^verbatim>\<open>await\<close> before the first one resumes: each sees a room
  below its limit, all three calls return true, and the battle room, whose limit in
  \<^verbatim>\<open>ROOM_LIMITS\<close> is 2 (\<^verbatim>\<open>// 1v1 battles\<close>), has three members.
\<close>

theorem overlapping_joins_exceed_capacity:
  "registry_of (gateway_of (join_run
      [Call 0 ''battle'' ''x'' 10, Call 1 ''battle'' ''x'' 10, Call 2 ''battle'' ''x'' 10,
       Resume 0, Resume 1, Resume 2] (start three_subjects))) =
     [(''battle:x'',
       \<lparr>type = ''battle'', id = ''x'', members = [''A'', ''B'', ''C''], createdAt = 10\<rparr>)] \<and>
   returned (join_run
      [Call 0 ''battle'' ''x'' 10, Call 1 ''battle'' ''x'' 10, Call 2 ''battle'' ''x'' 10,
       Resume 0, Resume 1, Resume 2] (start three_subjects)) =
     [(0, True), (1, True), (2, True)] \<and>
   ROOM_LIMITS ''battle'' = Some 2 \<and>
   \<not> length [''A'', ''B'', ''C''] \<le> (2::nat)"
  by code_simp

subsection \<open>The sweep\<close>

text \<open>
  Claim C8. On a registry (a map: no key twice) a sweep removes exactly the rooms whose
  member set is empty at the tick: after it a key is bound iff it was bound to a room
  with at least one member, and that room is unchanged. \<open>leaveRoom\<close> and
  \<open>leaveAllRooms\<close> never remove a key, also when they remove the last member; and over
  any run of operations without a sweep a room that is in the registry stays in it, so
  an empty room is there until the next tick.
\<close>

theorem sweep_removes_exactly_empty_rooms:
  "(distinct (map fst rs) \<longrightarrow>
      map_of (cleanupEmptyRooms rs) k =
        (case map_of rs k of
           None \<Rightarrow> None
         | Some room \<Rightarrow> if members room = [] then None else Some room)) \<and>
   map fst (snd (leaveRoom data ty i rs)) = map fst rs \<and>
   map fst (snd (leaveAllRooms data rs)) = map fst rs \<and>
   ((\<forall>op \<in> set ops. \<not> is_sweep op) \<and> k \<in> fst ` set (registry_of g) \<longrightarrow>
      k \<in> fst ` set (registry_of (run ops g)))"
proof -
  have a: "map_of (cleanupEmptyRooms rs) k =
        (case map_of rs k of
           None \<Rightarrow> None
         | Some room \<Rightarrow> if members room = [] then None else Some room)"
    if "distinct (map fst rs)"
    using that map_of_filter_values [of rs "\<lambda>room. members room \<noteq> []" k]
    by (simp add: cleanupEmptyRooms_filter split: option.splits)
  have b: "map fst (snd (leaveRoom data ty i rs)) = map fst rs"
    by (rule keys_leaveRoom)
  have c: "map fst (snd (leaveAllRooms data rs)) = map fst rs"
    by (rule keys_leaveAllRooms)
  have d: "k \<in> fst ` set (registry_of (run ops g))"
    if "\<forall>op \<in> set ops. \<not> is_sweep op" "k \<in> fst ` set (registry_of g)"
    using that by (rule keys_run)
  from a b c d show ?thesis by blast
qed

theorem sweep_removes_exactly_empty_rooms_witness:
  "distinct (map fst
     [(''battle:x'', \<lparr>type = ''battle'', id = ''x'', members = [], createdAt = 1\<rparr>),
      (''spot:y'', \<lparr>type = ''spot'', id = ''y'', members = [''A''], createdAt = 2\<rparr>)]) \<and>
   map_of (cleanupEmptyRooms
     [(''battle:x'', \<lparr>type = ''battle'', id = ''x'', members = [], createdAt = 1\<rparr>),
      (''spot:y'', \<lparr>type = ''spot'', id = ''y'', members = [''A''], createdAt = 2\<rparr>)])
     ''battle:x'' = None \<and>
   map_of (cleanupEmptyRooms
     [(''battle:x'', \<lparr>type = ''battle'', id = ''x'', members = [], createdAt = 1\<rparr>),
      (''spot:y'', \<lparr>type = ''spot'', id = ''y'', members = [''A''], createdAt = 2\<rparr>)])
     ''spot:y'' = Some \<lparr>type = ''spot'', id = ''y'', members = [''A''], createdAt = 2\<rparr> \<and>
   list_all (\<lambda>op. \<not> is_sweep op) [Leave 0 ''spot'' ''y'', LeaveAll 1, Join 1 ''game'' ''z'' 5] \<and>
   ''battle:x'' \<in> fst ` set (registry_of
     \<lparr>registry_of =
        [(''battle:x'', \<lparr>type = ''battle'', id = ''x'', members = [], createdAt = 1\<rparr>),
         (''spot:y'', \<lparr>type = ''spot'', id = ''y'', members = [''A''], createdAt = 2\<rparr>)],
      session_of = (\<lambda>sock. fresh_session (three_subjects sock))\<rparr>) \<and>
   ''battle:x'' \<in> fst ` set (registry_of (run
     [Leave 0 ''spot'' ''y'', LeaveAll 1, Join 1 ''game'' ''z'' 5]
     \<lparr>registry_of =
        [(''battle:x'', \<lparr>type = ''battle'', id = ''x'', members = [], createdAt = 1\<rparr>),
         (''spot:y'', \<lparr>type = ''spot'', id = ''y'', members = [''A''], createdAt = 2\<rparr>)],
      session_of = (\<lambda>sock. fresh_session (three_subjects sock))\<rparr>))"
proof -
  let ?rs = "[(''battle:x'', \<lparr>type = ''battle'', id = ''x'', members = [], createdAt = 1\<rparr>),
      (''spot:y'', \<lparr>type = ''spot'', id = ''y'', members = [''A''], createdAt = 2\<rparr>)]"
  let ?ops = "[Leave 0 ''spot'' ''y'', LeaveAll 1, Join 1 ''game'' ''z'' 5]"
  let ?g = "\<lparr>registry_of = ?rs, session_of = (\<lambda>sock. fresh_session (three_subjects sock))\<rparr>"
  have h1: "distinct (map fst ?rs)"
    by simp
  have h2: "\<forall>op \<in> set ?ops. \<not> is_sweep op"
    by simp
  have h3: "''battle:x'' \<in> fst ` set (registry_of ?g)"
    by simp
  show ?thesis
    using sweep_removes_exactly_empty_rooms [of ?rs "''battle:x''" "fresh_session ''A''"
        "''spot''" "''y''" ?ops ?g]
      sweep_removes_exactly_empty_rooms [of ?rs "''spot:y''" "fresh_session ''A''"
        "''spot''" "''y''" ?ops ?g] h1 h2 h3
    by simp
qed

subsection \<open>Joining twice\<close>

lemma map_of_update_same: "map_of (AList.update k v al) k = Some v"
  by (simp add: update_conv')

lemma update_same_value: "map_of al k = Some v \<Longrightarrow> AList.update k v al = al"
  by (rule update_triv)

text \<open>What a join does, by the state of the room it finds.\<close>

lemma joinRoom_new:
  "map_of rs (getRoomId ty i) = None \<Longrightarrow>
   joinRoom now data ty i rs =
     (if size_ge 0 (ROOM_LIMITS ty)
      then (False, data,
            AList.update (getRoomId ty i) \<lparr>type = ty, id = i, members = [], createdAt = now\<rparr> rs)
      else (True, data\<lparr>rooms := set_add (getRoomId ty i) (rooms data)\<rparr>,
            AList.update (getRoomId ty i)
              \<lparr>type = ty, id = i, members = [odv data], createdAt = now\<rparr> rs))"
  by (simp add: joinRoom_def getOrCreateRoom_def Let_def set_add_def)

lemma joinRoom_existing:
  "map_of rs (getRoomId ty i) = Some room \<Longrightarrow>
   joinRoom now data ty i rs =
     (if size_ge (length (members room)) (ROOM_LIMITS ty) then (False, data, rs)
      else (True, data\<lparr>rooms := set_add (getRoomId ty i) (rooms data)\<rparr>,
            AList.update (getRoomId ty i)
              (room\<lparr>members := set_add (odv data) (members room)\<rparr>) rs))"
  by (simp add: joinRoom_def getOrCreateRoom_def Let_def)

lemma joinRoom_binds:
  "\<exists>room. map_of (snd (snd (joinRoom now data ty i rs))) (getRoomId ty i) = Some room"
  by (cases "map_of rs (getRoomId ty i)")
     (auto simp: joinRoom_new joinRoom_existing map_of_update_same)

lemma joinRoom_again:
  assumes first: "joinRoom now1 data ty i rs = (j1, d1, rs1)"
    and room1: "map_of rs1 (getRoomId ty i) = Some room1"
  shows "joinRoom now2 d1 ty i rs1 =
           (\<not> size_ge (length (members room1)) (ROOM_LIMITS ty), d1, rs1)"
proof (cases "size_ge (length (members room1)) (ROOM_LIMITS ty)")
  case True
  then show ?thesis
    using room1 by (simp add: joinRoom_existing)
next
  case False
  have j1: "j1" and d1: "d1 = data\<lparr>rooms := set_add (getRoomId ty i) (rooms data)\<rparr>"
    and mem: "odv data \<in> set (members room1)"
  proof -
    show "j1" "d1 = data\<lparr>rooms := set_add (getRoomId ty i) (rooms data)\<rparr>"
      "odv data \<in> set (members room1)"
      using first room1 False
      by (cases "map_of rs (getRoomId ty i)";
          auto simp: joinRoom_new joinRoom_existing map_of_update_same set_add_def
            split: if_splits)+
  qed
  have "set_add (odv data) (members room1) = members room1"
    using mem by (simp add: set_add_def)
  then have same: "room1\<lparr>members := set_add (odv data) (members room1)\<rparr> = room1"
    by simp
  have "odv d1 = odv data" "set_add (getRoomId ty i) (rooms d1) = rooms d1"
    by (simp_all add: d1 set_add_def)
  then have d: "d1\<lparr>rooms := set_add (getRoomId ty i) (rooms d1)\<rparr> = d1"
    by simp
  show ?thesis
    using False room1 same d \<open>odv d1 = odv data\<close>
    by (simp add: joinRoom_existing update_same_value)
qed

text \<open>
  Claim C3, as the code has it. Two joins in succession with the same session, type and
  id: the second call leaves the session and the registry exactly as the first call
  left them, so the size of the member set does not change. The second call returns
  true exactly when the room is still below the limit of its type after the first
  call, and then the first call returned true as well. When the first call takes the
  last free place, it returns true and the second call returns false.
\<close>

theorem join_twice_second_call:
  "(case joinRoom now1 data ty i rs of
      (j1, d1, rs1) \<Rightarrow>
        (case joinRoom now2 d1 ty i rs1 of
           (j2, d2, rs2) \<Rightarrow>
             d2 = d1 \<and> rs2 = rs1 \<and>
             (case map_of rs1 (getRoomId ty i) of
                None \<Rightarrow> False
              | Some room1 \<Rightarrow>
                  j2 = (\<not> size_ge (length (members room1)) (ROOM_LIMITS ty)) \<and>
                  (j1 \<and> j2) = (\<not> size_ge (length (members room1)) (ROOM_LIMITS ty)))))"
proof -
  obtain j1 d1 rs1 where first: "joinRoom now1 data ty i rs = (j1, d1, rs1)"
    by (cases "joinRoom now1 data ty i rs")
  obtain room1 where room1: "map_of rs1 (getRoomId ty i) = Some room1"
    using joinRoom_binds [of now1 data ty i rs] first by auto
  have second: "joinRoom now2 d1 ty i rs1 =
      (\<not> size_ge (length (members room1)) (ROOM_LIMITS ty), d1, rs1)"
    using first room1 by (rule joinRoom_again)
  have "j1 \<or> size_ge (length (members room1)) (ROOM_LIMITS ty)"
    using first room1
    by (cases "map_of rs (getRoomId ty i)";
        auto simp: joinRoom_new joinRoom_existing map_of_update_same split: if_splits)
  with first room1 second show ?thesis
    by auto
qed

theorem join_twice_second_call_witness:
  "joinRoom 11 (fresh_session ''A'') ''game'' ''g'' [] =
     (True, fresh_session ''A''\<lparr>rooms := [''game:g'']\<rparr>,
      [(''game:g'', \<lparr>type = ''game'', id = ''g'', members = [''A''], createdAt = 11\<rparr>)]) \<and>
   joinRoom 12 (fresh_session ''A''\<lparr>rooms := [''game:g'']\<rparr>) ''game'' ''g''
      [(''game:g'', \<lparr>type = ''game'', id = ''g'', members = [''A''], createdAt = 11\<rparr>)] =
     (True, fresh_session ''A''\<lparr>rooms := [''game:g'']\<rparr>,
      [(''game:g'', \<lparr>type = ''game'', id = ''g'', members = [''A''], createdAt = 11\<rparr>)])"
proof -
  have e: "joinRoom 11 (fresh_session ''A'') ''game'' ''g'' [] =
     (True, fresh_session ''A''\<lparr>rooms := [''game:g'']\<rparr>,
      [(''game:g'', \<lparr>type = ''game'', id = ''g'', members = [''A''], createdAt = 11\<rparr>)])"
    by code_simp
  have s: "\<not> size_ge 1 (ROOM_LIMITS ''game'')"
    by (simp add: size_ge_def ROOM_LIMITS_def one_enat_def numeral_eq_enat)
  show ?thesis
    using join_twice_second_call [where ?now1.0 = 11 and data = "fresh_session ''A''"
        and ty = "''game''" and i = "''g''" and rs = "[]" and ?now2.0 = 12] e s
    by (simp add: getRoomId_def split: prod.splits)
qed

text \<open>
  The claim as stated (both calls return true) fails where the first join fills the
  room: B is in the battle room, A joins and is the second member, A joins again and is
  turned away, while the room still has two members.
\<close>

theorem join_twice_counterexample:
  "snd (snd (joinRoom 10 (fresh_session ''B'') ''battle'' ''x'' [])) =
     [(''battle:x'', \<lparr>type = ''battle'', id = ''x'', members = [''B''], createdAt = 10\<rparr>)] \<and>
   joinRoom 11 (fresh_session ''A'') ''battle'' ''x''
     [(''battle:x'', \<lparr>type = ''battle'', id = ''x'', members = [''B''], createdAt = 10\<rparr>)] =
     (True, fresh_session ''A''\<lparr>rooms := [''battle:x'']\<rparr>,
      [(''battle:x'', \<lparr>type = ''battle'', id = ''x'', members = [''B'', ''A''], createdAt = 10\<rparr>)]) \<and>
   joinRoom 12 (fresh_session ''A''\<lparr>rooms := [''battle:x'']\<rparr>) ''battle'' ''x''
     [(''battle:x'', \<lparr>type = ''battle'', id = ''x'', members = [''B'', ''A''], createdAt = 10\<rparr>)] =
     (False, fresh_session ''A''\<lparr>rooms := [''battle:x'']\<rparr>,
      [(''battle:x'', \<lparr>type = ''battle'', id = ''x'', members = [''B'', ''A''], createdAt = 10\<rparr>)])"
  by code_simp

subsection \<open>Leaving all rooms\<close>

lemma leaveRoom_session:
  "fst (leaveRoom data ty i rs) = data\<lparr>rooms := set_delete (getRoomId ty i) (rooms data)\<rparr>"
  by (simp add: leaveRoom_def Let_def)

lemma leaveRoom_lookup:
  "map_of (snd (leaveRoom data ty i rs)) k =
     (if k = getRoomId ty i then map_option (without (odv data)) (map_of rs k) else map_of rs k)"
  by (auto simp: leaveRoom_def Let_def update_conv' without_def split: option.splits)

lemma parseRoomId_key: "parseRoomId k = Some (ty, i) \<Longrightarrow> getRoomId ty i = k"
  by (simp add: parseRoomId_Some_iff getRoomId_def)

lemma leaveAllRooms_loop_result:
  "leaveAllRooms_loop ks data rs = (data', rs') \<Longrightarrow>
   rooms data' = filter (\<lambda>k. \<not> (k \<in> set ks \<and> parsable k)) (rooms data) \<and>
   odv data' = odv data \<and>
   (\<forall>k. map_of rs' k =
      (if k \<in> set ks \<and> k \<in> set (rooms data) \<and> parsable k
       then map_option (without (odv data)) (map_of rs k) else map_of rs k))"
proof (induction ks arbitrary: data rs)
  case Nil
  then show ?case by auto
next
  case (Cons k ks)
  show ?case
  proof (cases "k \<in> set (rooms data) \<and> parsable k")
    case False
    then have "leaveAllRooms_loop ks data rs = (data', rs')"
      using Cons.prems by (auto simp: parsable_def split: option.splits)
    from Cons.IH [OF this] False show ?thesis
      by (auto intro!: filter_cong)
  next
    case True
    then obtain ty i where p: "parseRoomId k = Some (ty, i)"
      by (auto simp: parsable_def)
    have key: "getRoomId ty i = k" using p by (rule parseRoomId_key)
    let ?data1 = "fst (leaveRoom data ty i rs)" and ?rs1 = "snd (leaveRoom data ty i rs)"
    have d1: "rooms ?data1 = removeAll k (rooms data)" "odv ?data1 = odv data"
      by (simp_all add: leaveRoom_session key set_delete_def)
    have r1: "map_of ?rs1 k' =
        (if k' = k then map_option (without (odv data)) (map_of rs k') else map_of rs k')" for k'
      by (simp add: leaveRoom_lookup key)
    have "leaveAllRooms_loop ks ?data1 ?rs1 = (data', rs')"
      using Cons.prems True p by (simp split: prod.splits)
    from Cons.IH [OF this]
    have ih: "rooms data' =
        filter (\<lambda>k'. \<not> (k' \<in> set ks \<and> parsable k')) (removeAll k (rooms data))"
      "odv data' = odv data"
      "\<And>k'. map_of rs' k' =
        (if k' \<in> set ks \<and> k' \<in> set (removeAll k (rooms data)) \<and> parsable k'
         then map_option (without (odv data)) (map_of ?rs1 k') else map_of ?rs1 k')"
      by (simp_all add: d1)
    have a: "rooms data' =
        filter (\<lambda>k'. \<not> (k' \<in> set (k # ks) \<and> parsable k')) (rooms data)"
      using True by (auto simp: ih(1) removeAll_filter_not_eq intro!: filter_cong)
    have c: "map_of rs' k' =
      (if k' \<in> set (k # ks) \<and> k' \<in> set (rooms data) \<and> parsable k'
       then map_option (without (odv data)) (map_of rs k') else map_of rs k')" for k'
      using True by (auto simp: ih(3) r1)
    from a ih(2) c show ?thesis by blast
  qed
qed

lemma leaveAllRooms_result:
  assumes "leaveAllRooms data rs = (data', rs')"
  shows "rooms data' = filter (\<lambda>k. \<not> parsable k) (rooms data)"
    and "odv data' = odv data"
    and "map_of rs' k =
      (if k \<in> set (rooms data) \<and> parsable k
       then map_option (without (odv data)) (map_of rs k) else map_of rs k)"
proof -
  from assms have l: "leaveAllRooms_loop (rooms data) data rs = (data', rs')"
    by (simp add: leaveAllRooms_def)
  from leaveAllRooms_loop_result [OF l]
  show "rooms data' = filter (\<lambda>k. \<not> parsable k) (rooms data)"
    by (auto intro!: filter_cong)
  from leaveAllRooms_loop_result [OF l] show "odv data' = odv data" by simp
  from leaveAllRooms_loop_result [OF l]
  show "map_of rs' k =
      (if k \<in> set (rooms data) \<and> parsable k
       then map_option (without (odv data)) (map_of rs k) else map_of rs k)"
    by simp
qed

lemma not_member_without: "u \<notin> set (members (without u room))"
  by (simp add: without_def set_delete_def)

lemma parsable_getRoomId: "isRoomType ty \<Longrightarrow> parsable (getRoomId ty i) \<longleftrightarrow> i \<noteq> []"
  by (simp add: parsable_def parse_getRoomId)

text \<open>
  Claim C2, as the code has it. For a session all of whose room keys are accepted by
  \<open>parseRoomId\<close> (keys of rooms with a non-empty id), after \<open>leaveAllRooms\<close> the
  room-key set of the session is empty, and for every key the session held the room is
  either absent (it was swept before, and it stays absent) or it is the room as it was
  with the subject taken out, so it no longer lists the subject. If moreover the keys of
  the registry are distinct and every room that lists the subject was among the keys
  of the session, the subject is a member of no room of the registry. For any session:
  a room whose key the session did not hold is left exactly as it was, and no room is
  created or removed by the call.
\<close>

theorem leaveAllRooms_clears_session:
  "((\<forall>k \<in> set (rooms data). parsable k) \<longrightarrow>
      rooms (fst (leaveAllRooms data rs)) = [] \<and>
      (\<forall>k \<in> set (rooms data).
         case map_of (snd (leaveAllRooms data rs)) k of
           None \<Rightarrow> map_of rs k = None
         | Some room \<Rightarrow> odv data \<notin> set (members room)) \<and>
      (distinct (map fst rs) \<and>
       (\<forall>(k, room) \<in> set rs. odv data \<in> set (members room) \<longrightarrow> k \<in> set (rooms data)) \<longrightarrow>
         (\<forall>(k, room) \<in> set (snd (leaveAllRooms data rs)). odv data \<notin> set (members room))) \<and>
      (\<forall>k \<in> set (rooms data).
         map_of (snd (leaveAllRooms data rs)) k = map_option (without (odv data)) (map_of rs k))) \<and>
   (k' \<notin> set (rooms data) \<longrightarrow> map_of (snd (leaveAllRooms data rs)) k' = map_of rs k') \<and>
   map fst (snd (leaveAllRooms data rs)) = map fst rs"
proof -
  obtain data' rs' where l: "leaveAllRooms data rs = (data', rs')"
    by (cases "leaveAllRooms data rs")
  note res = leaveAllRooms_result [OF l]
  have keys: "map fst rs' = map fst rs"
    using keys_leaveAllRooms [of data rs] l by simp
  have main: "rooms data' = [] \<and>
      (\<forall>k \<in> set (rooms data).
         case map_of rs' k of
           None \<Rightarrow> map_of rs k = None
         | Some room \<Rightarrow> odv data \<notin> set (members room)) \<and>
      (distinct (map fst rs) \<and>
       (\<forall>(k, room) \<in> set rs. odv data \<in> set (members room) \<longrightarrow> k \<in> set (rooms data)) \<longrightarrow>
         (\<forall>(k, room) \<in> set rs'. odv data \<notin> set (members room))) \<and>
      (\<forall>k \<in> set (rooms data).
         map_of rs' k = map_option (without (odv data)) (map_of rs k))"
    if all: "\<forall>k \<in> set (rooms data). parsable k"
  proof (intro conjI impI)
    show "\<forall>k \<in> set (rooms data).
         map_of rs' k = map_option (without (odv data)) (map_of rs k)"
      using all by (simp add: res(3))
    show "rooms data' = []"
      using all by (simp add: res(1) filter_empty_conv)
    show "\<forall>k \<in> set (rooms data).
         case map_of rs' k of
           None \<Rightarrow> map_of rs k = None
         | Some room \<Rightarrow> odv data \<notin> set (members room)"
      using all by (auto simp: res(3) not_member_without split: option.splits)
    assume h: "distinct (map fst rs) \<and>
       (\<forall>(k, room) \<in> set rs. odv data \<in> set (members room) \<longrightarrow> k \<in> set (rooms data))"
    show "\<forall>(k, room) \<in> set rs'. odv data \<notin> set (members room)"
    proof (clarify)
      fix k room
      assume in': "(k, room) \<in> set rs'" and mem: "odv data \<in> set (members room)"
      have "distinct (map fst rs')" using h keys by simp
      with in' have m: "map_of rs' k = Some room" by simp
      show False
      proof (cases "k \<in> set (rooms data)")
        case True
        with m all mem show False
          by (auto simp: res(3) not_member_without)
      next
        case False
        with m have "map_of rs k = Some room" by (simp add: res(3))
        then have "(k, room) \<in> set rs" by (rule map_of_SomeD)
        with h mem False show False by auto
      qed
    qed
  qed
  have frame: "map_of rs' k' = map_of rs k'" if "k' \<notin> set (rooms data)"
    using that by (simp add: res(3))
  from main frame keys show ?thesis
    unfolding l fst_conv snd_conv by blast
qed

theorem leaveAllRooms_clears_session_witness:
  "list_all parsable (rooms (fresh_session ''U''\<lparr>rooms := [''spot:x'', ''game:gone'']\<rparr>)) \<and>
   distinct (map fst
     [(''spot:x'', \<lparr>type = ''spot'', id = ''x'', members = [''U'', ''V''], createdAt = 1\<rparr>),
      (''battle:z'', \<lparr>type = ''battle'', id = ''z'', members = [''V''], createdAt = 2\<rparr>)]) \<and>
   ''battle:z'' \<notin> set (rooms (fresh_session ''U''\<lparr>rooms := [''spot:x'', ''game:gone'']\<rparr>)) \<and>
   leaveAllRooms (fresh_session ''U''\<lparr>rooms := [''spot:x'', ''game:gone'']\<rparr>)
     [(''spot:x'', \<lparr>type = ''spot'', id = ''x'', members = [''U'', ''V''], createdAt = 1\<rparr>),
      (''battle:z'', \<lparr>type = ''battle'', id = ''z'', members = [''V''], createdAt = 2\<rparr>)] =
     (fresh_session ''U'',
      [(''spot:x'', \<lparr>type = ''spot'', id = ''x'', members = [''V''], createdAt = 1\<rparr>),
       (''battle:z'', \<lparr>type = ''battle'', id = ''z'', members = [''V''], createdAt = 2\<rparr>)])"
proof -
  let ?data = "fresh_session ''U''\<lparr>rooms := [''spot:x'', ''game:gone'']\<rparr>"
  let ?rs = "[(''spot:x'', \<lparr>type = ''spot'', id = ''x'', members = [''U'', ''V''], createdAt = 1\<rparr>),
      (''battle:z'', \<lparr>type = ''battle'', id = ''z'', members = [''V''], createdAt = 2\<rparr>)]"
  have p: "parsable ''spot:x''" "parsable ''game:gone''"
    using parsable_getRoomId [of "''spot''" "''x''"] parsable_getRoomId [of "''game''" "''gone''"]
    by (simp_all add: isRoomType_def getRoomId_def)
  then have h: "\<forall>k \<in> set (rooms ?data). parsable k"
    by (simp add: fresh_session_def)
  have h2: "''battle:z'' \<notin> set (rooms ?data)"
    by (simp add: fresh_session_def)
  have e: "leaveAllRooms ?data ?rs =
     (fresh_session ''U'',
      [(''spot:x'', \<lparr>type = ''spot'', id = ''x'', members = [''V''], createdAt = 1\<rparr>),
       (''battle:z'', \<lparr>type = ''battle'', id = ''z'', members = [''V''], createdAt = 2\<rparr>)])"
    by code_simp
  show ?thesis
    using leaveAllRooms_clears_session [where data = ?data and rs = ?rs and k' = "''battle:z''"]
      h h2 e
    by (simp add: list_all_iff)
qed

text \<open>
  The claim as stated fails in two ways. Members are subjects, not connections: a
  subject with two connections that leaves all rooms of the first is still a member of
  a room joined only through the second. And a key with an empty id, which \<open>joinRoom\<close>
  accepts, is skipped by the loop: it stays in the session and the subject stays in the
  room.
\<close>

theorem leaveAllRooms_counterexample:
  "odv (session_of (run [Join 1 ''spot'' ''x'' 1, Join 2 ''spot'' ''y'' 2, LeaveAll 1]
          (start same_subject)) 1) = ''U'' \<and>
   map_of (registry_of (run [Join 1 ''spot'' ''x'' 1, Join 2 ''spot'' ''y'' 2, LeaveAll 1]
          (start same_subject))) ''spot:y'' =
     Some \<lparr>type = ''spot'', id = ''y'', members = [''U''], createdAt = 2\<rparr> \<and>
   rooms (session_of (run [Join 1 ''battle'' [] 1, LeaveAll 1] (start same_subject)) 1) =
     [''battle:''] \<and>
   registry_of (run [Join 1 ''battle'' [] 1, LeaveAll 1] (start same_subject)) =
     [(''battle:'', \<lparr>type = ''battle'', id = [], members = [''U''], createdAt = 1\<rparr>)]"
  by code_simp

subsection \<open>The rate limiter\<close>

lemma counts_ok_update:
  "counts_ok m \<Longrightarrow> count e \<le> MAX_CONNECTIONS_PER_MINUTE \<Longrightarrow> counts_ok (AList.update ip e m)"
  using set_update_subset [of ip e m] unfolding counts_ok_def by fastforce

lemma counts_ok_checkRateLimit:
  assumes "counts_ok m"
  shows "counts_ok (snd (checkRateLimit now ip m))"
proof -
  have one: "(1::nat) \<le> MAX_CONNECTIONS_PER_MINUTE"
    by (simp add: MAX_CONNECTIONS_PER_MINUTE_def)
  show ?thesis
    using assms one
    by (auto simp: checkRateLimit_def Let_def split: option.splits intro!: counts_ok_update)
qed

lemma set_cleanupRateLimits_subset: "set (cleanupRateLimits now m) \<subseteq> set m"
proof -
  have "set (fold (\<lambda>(ip, entry) acc.
             if now > resetAt entry then AList.delete ip acc else acc) xs acc) \<subseteq> set acc"
    for xs acc :: attempts
  proof (induction xs arbitrary: acc)
    case Nil
    show ?case by simp
  next
    case (Cons x xs)
    obtain ip e where x: "x = (ip, e)" by (cases x)
    show ?case
      using Cons.IH [of "AList.delete ip acc"] Cons.IH [of acc] set_delete_subset [of ip acc]
      by (auto simp: x)
  qed
  then show ?thesis by (simp add: cleanupRateLimits_def)
qed

lemma counts_ok_cleanupRateLimits: "counts_ok m \<Longrightarrow> counts_ok (cleanupRateLimits now m)"
  using set_cleanupRateLimits_subset [of now m] unfolding counts_ok_def by blast

lemma counts_ok_limiter_run: "counts_ok m \<Longrightarrow> counts_ok (limiter_run evs m)"
  unfolding limiter_run_def
proof (induction evs arbitrary: m)
  case Nil
  then show ?case by simp
next
  case (Cons ev evs)
  have "counts_ok (limiter_step ev m)"
    using Cons.prems
    by (cases ev) (simp_all add: counts_ok_checkRateLimit counts_ok_cleanupRateLimits)
  then show ?case
    using Cons.IH by simp
qed

text \<open>
  Claim C7. After any traffic from start-up (attempts of any addresses at any times,
  and cleanup ticks) no entry has a count above 10. An attempt that finds its entry
  with a count of 10 or more, in the window of that entry, is denied and the map, with
  the counter in it, stays as it is; and at no time does an attempt that finds such an
  entry leave a higher count behind.
\<close>

theorem rate_count_bounded:
  "(\<forall>(ip, e) \<in> set (limiter_run evs []). count e \<le> 10) \<and>
   (map_of m ip = Some existing \<and> now \<le> resetAt existing \<and> 10 \<le> count existing \<longrightarrow>
      checkRateLimit now ip m = (False, m)) \<and>
   (map_of m ip = Some existing \<and> 10 \<le> count existing \<longrightarrow>
      (case map_of (snd (checkRateLimit now ip m)) ip of
         None \<Rightarrow> False
       | Some e \<Rightarrow> count e \<le> count existing))"
proof -
  have "counts_ok (limiter_run evs [])"
    by (rule counts_ok_limiter_run) (simp add: counts_ok_def)
  then have a: "\<forall>(ip, e) \<in> set (limiter_run evs []). count e \<le> 10"
    by (simp add: counts_ok_def MAX_CONNECTIONS_PER_MINUTE_def)
  have b: "checkRateLimit now ip m = (False, m)"
    if "map_of m ip = Some existing" "now \<le> resetAt existing" "10 \<le> count existing"
    using that by (simp add: checkRateLimit_def Let_def MAX_CONNECTIONS_PER_MINUTE_def)
  have c: "case map_of (snd (checkRateLimit now ip m)) ip of
         None \<Rightarrow> False
       | Some e \<Rightarrow> count e \<le> count existing"
    if "map_of m ip = Some existing" "10 \<le> count existing"
    using that
    by (simp add: checkRateLimit_def Let_def MAX_CONNECTIONS_PER_MINUTE_def update_conv')
  from a b c show ?thesis by blast
qed

theorem rate_count_bounded_witness:
  "limiter_run (replicate 12 (Attempt ''10.0.0.1'' 5) @ [CleanupTick 6, Attempt ''10.0.0.2'' 7]) [] =
     [(''10.0.0.1'', \<lparr>count = 10, resetAt = 60005\<rparr>),
      (''10.0.0.2'', \<lparr>count = 1, resetAt = 60007\<rparr>)] \<and>
   map_of [(''10.0.0.1'', \<lparr>count = 10, resetAt = 60005\<rparr>)] ''10.0.0.1'' =
     Some \<lparr>count = 10, resetAt = 60005\<rparr> \<and>
   (60005::int) \<le> resetAt \<lparr>count = 10, resetAt = 60005\<rparr> \<and>
   10 \<le> count \<lparr>count = 10, resetAt = 60005\<rparr> \<and>
   checkRateLimit 60005 ''10.0.0.1'' [(''10.0.0.1'', \<lparr>count = 10, resetAt = 60005\<rparr>)] =
     (False, [(''10.0.0.1'', \<lparr>count = 10, resetAt = 60005\<rparr>)])"
proof -
  have e: "limiter_run (replicate 12 (Attempt ''10.0.0.1'' 5) @ [CleanupTick 6, Attempt ''10.0.0.2'' 7]) [] =
     [(''10.0.0.1'', \<lparr>count = 10, resetAt = 60005\<rparr>),
      (''10.0.0.2'', \<lparr>count = 1, resetAt = 60007\<rparr>)]"
    by code_simp
  show ?thesis
    using rate_count_bounded [of "replicate 12 (Attempt ''10.0.0.1'' 5) @ [CleanupTick 6, Attempt ''10.0.0.2'' 7]"
        "[(''10.0.0.1'', \<lparr>count = 10, resetAt = 60005\<rparr>)]" "''10.0.0.1''"
        "\<lparr>count = 10, resetAt = 60005\<rparr>" 60005] e
    by simp
qed

lemma checkRateLimit_fresh:
  "(case map_of m ip of None \<Rightarrow> True | Some e \<Rightarrow> resetAt e < now) \<Longrightarrow>
   checkRateLimit now ip m =
     (True, AList.update ip \<lparr>count = 1, resetAt = now + RATE_LIMIT_WINDOW_MS\<rparr> m)"
  by (auto simp: checkRateLimit_def Let_def split: option.splits)

lemma checkRateLimit_in_window:
  "map_of m ip = Some e \<Longrightarrow> now \<le> resetAt e \<Longrightarrow>
   checkRateLimit now ip m =
     (if count e \<ge> MAX_CONNECTIONS_PER_MINUTE then (False, m)
      else (True, AList.update ip (e\<lparr>count := count e + 1\<rparr>) m))"
  by (simp add: checkRateLimit_def Let_def)

lemma admit_all_append:
  "admit_all ip (xs @ ys) m =
     (case admit_all ip xs m of
        (r1, m1) \<Rightarrow> (case admit_all ip ys m1 of (r2, m2) \<Rightarrow> (r1 @ r2, m2)))"
  by (induction xs arbitrary: m) (auto split: prod.splits)

lemma admit_all_in_window:
  "map_of m ip = Some e \<Longrightarrow> \<forall>t \<in> set ts. t \<le> resetAt e \<Longrightarrow>
   fst (admit_all ip ts m) = map (\<lambda>j. count e + j < MAX_CONNECTIONS_PER_MINUTE) [0..<length ts] \<and>
   map_of (snd (admit_all ip ts m)) ip =
     Some (e\<lparr>count := if count e \<ge> MAX_CONNECTIONS_PER_MINUTE then count e
                       else min MAX_CONNECTIONS_PER_MINUTE (count e + length ts)\<rparr>)"
proof (induction ts arbitrary: m e)
  case Nil
  then show ?case by (auto simp: min_def)
next
  case (Cons t ts)
  have t: "t \<le> resetAt e" and rest: "\<forall>t \<in> set ts. t \<le> resetAt e"
    using Cons.prems(2) by auto
  have shift: "map f [0..<Suc n] = f 0 # map (\<lambda>j. f (Suc j)) [0..<n]" for f :: "nat \<Rightarrow> bool" and n
    by (simp add: map_upt_Suc del: upt_Suc)
  show ?case
  proof (cases "count e \<ge> MAX_CONNECTIONS_PER_MINUTE")
    case True
    then have step: "checkRateLimit t ip m = (False, m)"
      using Cons.prems(1) t by (simp add: checkRateLimit_in_window)
    from Cons.IH [OF Cons.prems(1) rest] True step show ?thesis
      by (auto simp: shift split: prod.splits simp del: upt_Suc)
  next
    case False
    let ?e = "e\<lparr>count := count e + 1\<rparr>"
    let ?m = "AList.update ip ?e m"
    have step: "checkRateLimit t ip m = (True, ?m)"
      using Cons.prems(1) t False by (simp add: checkRateLimit_in_window)
    have m': "map_of ?m ip = Some ?e" by (simp add: update_conv')
    have rest': "\<forall>t \<in> set ts. t \<le> resetAt ?e" using rest by simp
    from Cons.IH [OF m' rest'] False step show ?thesis
      by (auto simp: shift min_def split: prod.splits simp del: upt_Suc)
  qed
qed

text \<open>
  Claim C4. An address with no entry, or with an entry whose reset time has passed,
  makes an attempt at \<open>t1\<close>, then ten more not later than \<open>t1 + 60000\<close>, then one
  later than that. The first ten attempts are allowed (the tenth is the last one
  allowed in the window), the eleventh is denied, and the attempt after the reset time
  is allowed and leaves the entry with count 1 and a new window.
\<close>

theorem rate_limit_window:
  "(case map_of m ip of None \<Rightarrow> True | Some e \<Rightarrow> resetAt e < t1) \<and>
   length ts = 10 \<and> (\<forall>t \<in> set ts. t \<le> t1 + 60000) \<and> t1 + 60000 < t12 \<longrightarrow>
     fst (admit_all ip (t1 # ts @ [t12]) m) = replicate 10 True @ [False, True] \<and>
     map_of (snd (admit_all ip (t1 # ts @ [t12]) m)) ip =
       Some \<lparr>count = 1, resetAt = t12 + 60000\<rparr>"
proof (intro impI, elim conjE)
  assume fresh: "case map_of m ip of None \<Rightarrow> True | Some e \<Rightarrow> resetAt e < t1"
    and len: "length ts = 10" and win: "\<forall>t \<in> set ts. t \<le> t1 + 60000"
    and late: "t1 + 60000 < t12"
  let ?e1 = "\<lparr>count = 1, resetAt = t1 + RATE_LIMIT_WINDOW_MS\<rparr>"
  let ?m1 = "AList.update ip ?e1 m"
  have first: "checkRateLimit t1 ip m = (True, ?m1)"
    using fresh by (rule checkRateLimit_fresh)
  have m1: "map_of ?m1 ip = Some ?e1" by (simp add: update_conv')
  have win1: "\<forall>t \<in> set ts. t \<le> resetAt ?e1"
    using win by (simp add: RATE_LIMIT_WINDOW_MS_def)
  obtain rs2 m2 where run2: "admit_all ip ts ?m1 = (rs2, m2)"
    by (cases "admit_all ip ts ?m1")
  from admit_all_in_window [OF m1 win1] run2 len
  have rs2: "rs2 = map (\<lambda>j. 1 + j < 10) [0..<10]"
    and m2: "map_of m2 ip = Some (?e1\<lparr>count := 10\<rparr>)"
    by (simp_all add: MAX_CONNECTIONS_PER_MINUTE_def)
  have rs2': "rs2 = replicate 9 True @ [False]"
    unfolding rs2 by (simp add: upt_rec numeral_eq_Suc)
  have last: "checkRateLimit t12 ip m2 =
      (True, AList.update ip \<lparr>count = 1, resetAt = t12 + RATE_LIMIT_WINDOW_MS\<rparr> m2)"
    using m2 late by (intro checkRateLimit_fresh) (simp add: RATE_LIMIT_WINDOW_MS_def)
  show "fst (admit_all ip (t1 # ts @ [t12]) m) = replicate 10 True @ [False, True] \<and>
     map_of (snd (admit_all ip (t1 # ts @ [t12]) m)) ip =
       Some \<lparr>count = 1, resetAt = t12 + 60000\<rparr>"
    using first run2 rs2' last
    by (simp add: admit_all_append update_conv' RATE_LIMIT_WINDOW_MS_def numeral_eq_Suc)
qed

theorem rate_limit_window_witness:
  "(case map_of ([] :: attempts) ''10.0.0.1'' of None \<Rightarrow> True | Some e \<Rightarrow> resetAt e < 0) \<and>
   length (replicate 10 (60000::int)) = 10 \<and>
   list_all (\<lambda>t. t \<le> 0 + 60000) (replicate 10 (60000::int)) \<and>
   (0::int) + 60000 < 60001 \<and>
   fst (admit_all ''10.0.0.1'' (0 # replicate 10 60000 @ [60001]) []) =
     replicate 10 True @ [False, True] \<and>
   map_of (snd (admit_all ''10.0.0.1'' (0 # replicate 10 60000 @ [60001]) [])) ''10.0.0.1'' =
     Some \<lparr>count = 1, resetAt = 60001 + 60000\<rparr>"
  using rate_limit_window [where m = "[]" and ip = "''10.0.0.1''" and ?t1.0 = 0
      and ts = "replicate 10 60000" and ?t12.0 = 60001]
  by (simp add: list_all_iff)

subsection \<open>Authentication\<close>

text \<open>
  Claim C6. An attempt that the rate limiter admits, with a non-empty string token that
  the identity provider verifies and whose subject resolves to a user record: if the
  user is active the middleware stores a session whose subject id is the id of the
  user, with no room, and whose roles contain \<^verbatim>\<open>"admin"\<close> exactly when the decoded
  token carries the admin claim; if the user is not active the attempt ends with
  \<^verbatim>\<open>account_inactive\<close> and no session.
\<close>

theorem authentication_outcome:
  "fst (checkRateLimit now ip m) \<and> t \<noteq> [] \<and> verifyIdToken t = Some decoded \<and>
   findUser (uid decoded) = Found user \<longrightarrow>
     (isActive user \<longrightarrow>
        fst (socketAuthMiddleware verifyIdToken findUser now later ip (Token t) m) =
          Inr \<lparr>userId = user_id user, odv = user_id user, firebaseUid = uid decoded,
               roles = (if admin decoded then [''admin''] else []),
               connectedAt = later, rooms = []\<rparr> \<and>
        (requireSocketAdmin
           \<lparr>userId = user_id user, odv = user_id user, firebaseUid = uid decoded,
            roles = (if admin decoded then [''admin''] else []),
            connectedAt = later, rooms = []\<rparr> \<longleftrightarrow> admin decoded)) \<and>
     (\<not> isActive user \<longrightarrow>
        fst (socketAuthMiddleware verifyIdToken findUser now later ip (Token t) m) =
          Inl account_inactive)"
  by (auto simp: socketAuthMiddleware_def requireSocketAdmin_def split: prod.splits)

theorem authentication_outcome_witness:
  "fst (checkRateLimit 0 ''10.0.0.1'' []) \<and> ''good'' \<noteq> [] \<and>
   demo_verify ''good'' = Some \<lparr>uid = ''fb-1'', admin = True\<rparr> \<and>
   demo_lookup True ''fb-1'' = Found \<lparr>user_id = ''user-42'', isActive = True\<rparr> \<and>
   demo_lookup False ''fb-1'' = Found \<lparr>user_id = ''user-42'', isActive = False\<rparr> \<and>
   fst (socketAuthMiddleware demo_verify (demo_lookup True) 0 7 ''10.0.0.1'' (Token ''good'') []) =
     Inr \<lparr>userId = ''user-42'', odv = ''user-42'', firebaseUid = ''fb-1'',
          roles = [''admin''], connectedAt = 7, rooms = []\<rparr> \<and>
   fst (socketAuthMiddleware demo_verify (demo_lookup False) 0 7 ''10.0.0.1'' (Token ''good'') []) =
     Inl account_inactive"
proof -
  have h1: "fst (checkRateLimit 0 ''10.0.0.1'' [])"
    by (simp add: checkRateLimit_def)
  have h2: "demo_verify ''good'' = Some \<lparr>uid = ''fb-1'', admin = True\<rparr>"
    by (simp add: demo_verify_def)
  have h3: "demo_lookup b ''fb-1'' = Found \<lparr>user_id = ''user-42'', isActive = b\<rparr>" for b
    by (simp add: demo_lookup_def)
  show ?thesis
    using authentication_outcome [of 0 "''10.0.0.1''" "[]" "''good''" demo_verify
        "\<lparr>uid = ''fb-1'', admin = True\<rparr>" "demo_lookup True"
        "\<lparr>user_id = ''user-42'', isActive = True\<rparr>" 7]
      authentication_outcome [of 0 "''10.0.0.1''" "[]" "''good''" demo_verify
        "\<lparr>uid = ''fb-1'', admin = True\<rparr>" "demo_lookup False"
        "\<lparr>user_id = ''user-42'', isActive = False\<rparr>" 7]
      h1 h2 h3
    by simp
qed

subsection \<open>Statistics\<close>

lemma stats_fold:
  "fold (\<lambda>(roomId, room) (bt, tm).
           (increment (type room) bt, tm + length (members room))) rs (bt0, tm0) =
   (fold (\<lambda>(roomId, room). increment (type room)) rs bt0,
    tm0 + (\<Sum>(roomId, room) \<leftarrow> rs. length (members room)))"
  by (induction rs arbitrary: bt0 tm0) (auto simp: case_prod_unfold)

lemma byType_fold:
  "battle (fold (\<lambda>(roomId, room). increment (type room)) rs b) =
     battle b + length (filter (\<lambda>(roomId, room). type room = ''battle'') rs)"
  "game (fold (\<lambda>(roomId, room). increment (type room)) rs b) =
     game b + length (filter (\<lambda>(roomId, room). type room = ''game'') rs)"
  "spot (fold (\<lambda>(roomId, room). increment (type room)) rs b) =
     spot b + length (filter (\<lambda>(roomId, room). type room = ''spot'') rs)"
  "global (fold (\<lambda>(roomId, room). increment (type room)) rs b) =
     global b + length (filter (\<lambda>(roomId, room). type room = ''global'') rs)"
  by (induction rs arbitrary: b; auto simp: increment_def case_prod_unfold)+

lemma getRoomStats_eq:
  "getRoomStats rs =
     \<lparr>totalRooms = length rs,
      totalMembers = (\<Sum>(roomId, room) \<leftarrow> rs. length (members room)),
      byType = fold (\<lambda>(roomId, room). increment (type room)) rs
                 \<lparr>battle = 0, game = 0, spot = 0, global = 0\<rparr>\<rparr>"
  by (simp add: getRoomStats_def stats_fold)

lemma length_without:
  "distinct (members room) \<Longrightarrow>
   length (members room) =
     length (members (without u room)) + (if u \<in> set (members room) then 1 else 0)"
proof -
  assume d: "distinct (members room)"
  then have "removeAll u (members room) = remove1 u (members room)"
    by (simp add: distinct_remove1_removeAll)
  then show ?thesis
    by (auto simp: without_def set_delete_def length_remove1 
        dest: length_pos_if_in_set)
qed

lemma total_split:
  "\<forall>(roomId, room) \<in> set rs. distinct (members room) \<Longrightarrow>
   (\<Sum>(roomId, room) \<leftarrow> rs. length (members room)) =
   (\<Sum>(roomId, room) \<leftarrow> rs. length (members (without u room))) +
   length (filter (\<lambda>(roomId, room). u \<in> set (members room)) rs)"
proof (induction rs)
  case Nil
  show ?case by simp
next
  case (Cons x rs)
  obtain k room where x: "x = (k, room)" by (cases x)
  from Cons.prems x have d: "distinct (members room)" by simp
  from Cons show ?case
    using length_without [OF d, of u] by (simp add: x)
qed

text \<open>
  Claim C10. \<open>getRoomStats\<close> is a function of the registry alone (it returns no
  registry: nothing is written). \<open>totalRooms\<close> is the number of rooms, each counter of
  \<open>byType\<close> the number of rooms of that type, \<open>totalMembers\<close> the sum of the sizes of
  the member sets; so a subject adds one for each room it is a member of: taking the
  subject out of every room lowers the total by the number of rooms that list it.
\<close>

theorem room_stats:
  "totalRooms (getRoomStats rs) = length rs \<and>
   battle (byType (getRoomStats rs)) = length (filter (\<lambda>(roomId, room). type room = ''battle'') rs) \<and>
   game (byType (getRoomStats rs)) = length (filter (\<lambda>(roomId, room). type room = ''game'') rs) \<and>
   spot (byType (getRoomStats rs)) = length (filter (\<lambda>(roomId, room). type room = ''spot'') rs) \<and>
   global (byType (getRoomStats rs)) = length (filter (\<lambda>(roomId, room). type room = ''global'') rs) \<and>
   totalMembers (getRoomStats rs) = (\<Sum>(roomId, room) \<leftarrow> rs. length (members room)) \<and>
   ((\<forall>(roomId, room) \<in> set rs. distinct (members room)) \<longrightarrow>
      totalMembers (getRoomStats rs) =
        totalMembers (getRoomStats (map (\<lambda>(roomId, room). (roomId, without u room)) rs)) +
        length (filter (\<lambda>(roomId, room). u \<in> set (members room)) rs))"
proof -
  have "(\<Sum>(roomId, room) \<leftarrow> map (\<lambda>(roomId, room). (roomId, without u room)) rs.
            length (members room)) =
        (\<Sum>(roomId, room) \<leftarrow> rs. length (members (without u room)))"
    by (simp add: comp_def case_prod_unfold)
  then show ?thesis
    using total_split [of rs u]
    by (simp add: getRoomStats_eq byType_fold)
qed

theorem room_stats_witness:
  "list_all (\<lambda>(roomId, room). distinct (members room))
     [(''battle:x'', \<lparr>type = ''battle'', id = ''x'', members = [''A'', ''B''], createdAt = 1\<rparr>),
      (''spot:y'', \<lparr>type = ''spot'', id = ''y'', members = [''A''], createdAt = 2\<rparr>),
      (''spot:z'', \<lparr>type = ''spot'', id = ''z'', members = [], createdAt = 3\<rparr>)] \<and>
   getRoomStats
     [(''battle:x'', \<lparr>type = ''battle'', id = ''x'', members = [''A'', ''B''], createdAt = 1\<rparr>),
      (''spot:y'', \<lparr>type = ''spot'', id = ''y'', members = [''A''], createdAt = 2\<rparr>),
      (''spot:z'', \<lparr>type = ''spot'', id = ''z'', members = [], createdAt = 3\<rparr>)] =
     \<lparr>totalRooms = 3, totalMembers = 3,
      byType = \<lparr>battle = 1, game = 0, spot = 2, global = 0\<rparr>\<rparr> \<and>
   totalMembers (getRoomStats
     [(''battle:x'', \<lparr>type = ''battle'', id = ''x'', members = [''A'', ''B''], createdAt = 1\<rparr>),
      (''spot:y'', \<lparr>type = ''spot'', id = ''y'', members = [''A''], createdAt = 2\<rparr>),
      (''spot:z'', \<lparr>type = ''spot'', id = ''z'', members = [], createdAt = 3\<rparr>)]) =
     totalMembers (getRoomStats
     [(''battle:x'', \<lparr>type = ''battle'', id = ''x'', members = [''B''], createdAt = 1\<rparr>),
      (''spot:y'', \<lparr>type = ''spot'', id = ''y'', members = [], createdAt = 2\<rparr>),
      (''spot:z'', \<lparr>type = ''spot'', id = ''z'', members = [], createdAt = 3\<rparr>)]) + 2"
proof -
  let ?rs = "[(''battle:x'', \<lparr>type = ''battle'', id = ''x'', members = [''A'', ''B''], createdAt = 1\<rparr>),
      (''spot:y'', \<lparr>type = ''spot'', id = ''y'', members = [''A''], createdAt = 2\<rparr>),
      (''spot:z'', \<lparr>type = ''spot'', id = ''z'', members = [], createdAt = 3\<rparr>)]"
  have e: "getRoomStats ?rs =
     \<lparr>totalRooms = 3, totalMembers = 3,
      byType = \<lparr>battle = 1, game = 0, spot = 2, global = 0\<rparr>\<rparr>"
    by code_simp
  have e2: "totalMembers (getRoomStats
     [(''battle:x'', \<lparr>type = ''battle'', id = ''x'', members = [''B''], createdAt = 1\<rparr>),
      (''spot:y'', \<lparr>type = ''spot'', id = ''y'', members = [], createdAt = 2\<rparr>),
      (''spot:z'', \<lparr>type = ''spot'', id = ''z'', members = [], createdAt = 3\<rparr>)]) = 1"
    by code_simp
  show ?thesis
    using room_stats [of ?rs "''A''"] e e2
    by (simp add: without_def set_delete_def)
qed

end
